theory Spec2Isabelle
  imports Main "HOL-Library.Word" "HOL-Library.Signed_Division"
begin

unbundle bit_operations_syntax

section \<open>The BiBOP allocator of allocator.c\<close>

text \<open>
  The program is written for an LP64 target (it calls \<open>mmap\<close> and applies
  \<open>__builtin_clzl\<close> to a \<open>size_t\<close>): \<open>size_t\<close>, \<open>intptr_t\<close> and every pointer are
  64 bits wide, \<open>int\<close> is 32 bits wide. Unsigned arithmetic wraps around, so sizes and
  addresses are 64-bit words.
\<close>

type_synonym addr = "64 word"
type_synonym size_t = "64 word"

subsection \<open>Constants and macros\<close>

definition MIN_MALLOC_SIZE :: size_t where
  "MIN_MALLOC_SIZE = 16"

definition PAGE_SIZE :: size_t where
  "PAGE_SIZE = 0x1000"

definition NULL :: addr where
  "NULL = 0"

text \<open>\<open>MAP_FAILED\<close> is \<open>(void *) -1\<close>.\<close>

definition MAP_FAILED :: addr where
  "MAP_FAILED = - 1"

text \<open>
  The literal \<open>0xF00DFACE\<close> does not fit an \<open>int\<close>, so it is an \<open>unsigned int\<close>;
  stored into the \<open>int\<close> field and compared with the literal again, it is the same 32 bits.
\<close>

definition MAGIC :: "32 word" where
  "MAGIC = 0xF00DFACE"

text \<open>
  \<open>ROUND_UP(x,y)\<close> and \<open>ROUND_DOWN(x,y)\<close> on \<open>size_t\<close> operands. In C a zero \<open>y\<close>
  is a division by zero; the callers below never pass one without a check.
\<close>

definition ROUND_UP :: "size_t \<Rightarrow> size_t \<Rightarrow> size_t" where
  "ROUND_UP x y = (if x mod y = 0 then x else x + (y - x mod y))"


text \<open>
  \<open>ROUND_DOWN((intptr_t) ptr, PAGE_SIZE)\<close>: both operands are signed here, and the C
  remainder truncates towards zero.
\<close>

definition ROUND_DOWN_intptr :: "addr \<Rightarrow> int \<Rightarrow> addr" where
  "ROUND_DOWN_intptr x y = word_of_int (sint x - (sint x smod y))"

subsection \<open>The compiler builtins\<close>

text \<open>
  \<open>__builtin_clzl\<close> counts the zero bits above the most significant one bit of an
  \<open>unsigned long\<close>, \<open>__builtin_ctz\<close> the zero bits below the least significant one bit
  of an \<open>unsigned int\<close>. Both are undefined at 0 in C; here they count all the bits.
\<close>

definition clzl :: "64 word \<Rightarrow> nat" where
  "clzl w = length (takeWhile (\<lambda>i. \<not> bit w i) (rev [0..<64]))"

definition ctz :: "32 word \<Rightarrow> nat" where
  "ctz w = length (takeWhile (\<lambda>i. \<not> bit w i) [0..<32])"

subsection \<open>Memory, headers and nodes\<close>

text \<open>
  Memory is a store of 8-byte cells, each named by its byte address. On LP64 a
  \<open>Header\<close> is 32 bytes: \<open>magicNum\<close> in the low four bytes of the cell at offset 0
  (little-endian), \<open>size\<close> at offset 8, \<open>freelist\<close> at 16, \<open>next\<close> at 24. A \<open>Node\<close>
  is the one cell at its own address, so a node written over a header field changes that
  field, as in C. Every access of the program is to such a cell as long as block sizes
  are multiples of 8.
\<close>

type_synonym memory = "addr \<Rightarrow> 64 word"

definition sizeof_Header :: size_t where
  "sizeof_Header = 32"

definition hdr_magicNum :: "memory \<Rightarrow> addr \<Rightarrow> 32 word" where
  "hdr_magicNum m h = ucast (m h)"

definition hdr_size :: "memory \<Rightarrow> addr \<Rightarrow> size_t" where
  "hdr_size m h = m (h + 8)"

definition hdr_freelist :: "memory \<Rightarrow> addr \<Rightarrow> addr" where
  "hdr_freelist m h = m (h + 16)"

definition hdr_next :: "memory \<Rightarrow> addr \<Rightarrow> addr" where
  "hdr_next m h = m (h + 24)"

definition node_next :: "memory \<Rightarrow> addr \<Rightarrow> addr" where
  "node_next m n = m n"

definition set_magicNum :: "memory \<Rightarrow> addr \<Rightarrow> 32 word \<Rightarrow> memory" where
  "set_magicNum m h v = m(h := (m h AND NOT (mask 32)) OR ucast v)"

definition set_size :: "memory \<Rightarrow> addr \<Rightarrow> size_t \<Rightarrow> memory" where
  "set_size m h v = m(h + 8 := v)"

definition set_freelist :: "memory \<Rightarrow> addr \<Rightarrow> addr \<Rightarrow> memory" where
  "set_freelist m h v = m(h + 16 := v)"

definition set_next :: "memory \<Rightarrow> addr \<Rightarrow> addr \<Rightarrow> memory" where
  "set_next m h v = m(h + 24 := v)"

definition set_node_next :: "memory \<Rightarrow> addr \<Rightarrow> addr \<Rightarrow> memory" where
  "set_node_next m n v = m(n := v)"

subsection \<open>The allocator's state\<close>

text \<open>
  The globals of the program, the address of its static \<open>emergency_block\<close>, the memory,
  and the regions the Page Source (\<open>mmap\<close>) has handed out so far, newest first, each
  with the length that was asked for.
\<close>

record state =
  in_malloc :: bool
  use_emergency_block :: bool
  emergency_block :: addr
  blockPtrs :: "addr list"
  p :: addr
  offset :: size_t
  mem :: memory
  mapped :: "(addr \<times> size_t) list"

text \<open>
  How a call ends: it returns a value, it spins in \<open>for(;;){}\<close>, it leaves through
  \<open>exit\<close>, or it traps (a store through \<open>MAP_FAILED\<close>, a division by zero).
\<close>

datatype trap = SegFault | DivideByZero

datatype 'a outcome =
    Returned 'a state
  | Hang state
  | Exit nat state
  | Trapped trap

text \<open>
  The Page Source is outside the program. Its answer to the one request a call of
  \<open>xxmalloc\<close> can make is the argument \<open>r\<close>: the base of the new region, or
  \<open>MAP_FAILED\<close>. The kernel's zero-filling of a new region is not part of the model:
  \<open>xxmalloc\<close> writes every field of a new page before it reads it.
\<close>

definition mmap :: "addr \<Rightarrow> size_t \<Rightarrow> state \<Rightarrow> state" where
  "mmap r len s = (if r = MAP_FAILED then s else s\<lparr>mapped := (r, len) # mapped s\<rparr>)"

subsection \<open>xxmalloc\<close>

text \<open>Lines 93 to 100: the exponent of the power of two the request is rounded up to.\<close>

definition class_log2 :: "size_t \<Rightarrow> int" where
  "class_log2 sz =
     (if int (clzl sz) + int (ctz (ucast sz)) + 1 < 8 * 8
      then 8 * 8 - int (clzl sz)
      else int (ctz (ucast sz)))"

text \<open>
  Line 103. The index is used as a \<open>nat\<close> below; for the sizes that reach this line, 16
  to 2048, it is between 0 and 7 (lemma \<open>class_facts\<close>).
\<close>

definition class_index :: "size_t \<Rightarrow> int" where
  "class_index sz = class_log2 sz - int (ctz (ucast MIN_MALLOC_SIZE))"

text \<open>Line 106: \<open>1 << log2\<close> is an \<open>int\<close>, converted to \<open>size_t\<close>.\<close>

definition class_size :: "size_t \<Rightarrow> size_t" where
  "class_size sz = scast (push_bit (nat (class_log2 sz)) (1 :: 32 word))"

text \<open>
  Lines 131 to 136, the loop that links the blocks of the page at \<open>base\<close>. It returns the
  final \<open>offset\<close> and the memory; with a size of 0 it would not return.
\<close>

partial_function (option) carve :: "size_t \<Rightarrow> addr \<Rightarrow> size_t \<Rightarrow> memory \<Rightarrow> (size_t \<times> memory) option" where
  "carve sz base off m =
     (if off < PAGE_SIZE
      then carve sz base (off + sz)
             (set_freelist (set_node_next m (base + off) (hdr_freelist m base)) base (base + off))
      else Some (off, m))"

declare carve.simps [code]

text \<open>
  Lines 112 to 137: a new page for class \<open>index\<close>, pushed on the class's stack and carved.
  There is no test of \<open>mmap\<close>'s result here: when it is \<open>MAP_FAILED\<close>, the store to
  \<open>newBlock->next\<close> in line 119 goes through an address that is not mapped, and the call
  traps.
\<close>

definition bootstrap :: "addr \<Rightarrow> nat \<Rightarrow> size_t \<Rightarrow> state \<Rightarrow> unit outcome" where
  "bootstrap r index sz s =
     (let s1 = (mmap r PAGE_SIZE s)\<lparr>p := r\<rparr>
      in if r = MAP_FAILED then Trapped SegFault
         else
           let newBlock = p s1;
               m1 = set_next (mem s1) newBlock (blockPtrs s1 ! index);
               bp = (blockPtrs s1)[index := newBlock];
               m2 = set_magicNum m1 (bp ! index) MAGIC;
               m3 = set_size m2 (bp ! index) sz;
               m4 = set_freelist m3 (bp ! index) NULL
           in case carve sz (p s1) (ROUND_UP sizeof_Header sz) m4 of
                None \<Rightarrow> Hang (s1\<lparr>blockPtrs := bp, mem := m4\<rparr>)
              | Some (off, m5) \<Rightarrow> Returned () (s1\<lparr>blockPtrs := bp, mem := m5, offset := off\<rparr>))"

text \<open>
  Lines 139 to 157: pop the head of the class's current page. Line 140 reads
  \<open>freelist->next\<close>, which traps when the head is \<open>NULL\<close>. The diagnostic output of
  lines 153 to 155 is left out.
\<close>

definition pop :: "nat \<Rightarrow> state \<Rightarrow> addr outcome" where
  "pop index s =
     (let h = blockPtrs s ! index;
          f = hdr_freelist (mem s) h;
          s1 = s\<lparr>p := f\<rparr>
      in if f = NULL then Trapped SegFault
         else
           let s2 = s1\<lparr>mem := set_freelist (mem s1) h (node_next (mem s1) f)\<rparr>
           in if p s2 = MAP_FAILED then Exit 2 (s2\<lparr>use_emergency_block := True\<rparr>)
              else Returned (p s2) (s2\<lparr>in_malloc := False\<rparr>))"

definition xxmalloc :: "addr \<Rightarrow> state \<Rightarrow> size_t \<Rightarrow> addr outcome" where
  "xxmalloc r s sz =
     (if sz = 0 then Returned NULL s
      else if use_emergency_block s then Returned (emergency_block s) s
      else if in_malloc s then Hang (s\<lparr>use_emergency_block := True\<rparr>)
      else
        let s1 = s\<lparr>in_malloc := True\<rparr>;
            size1 = (if sz < MIN_MALLOC_SIZE then MIN_MALLOC_SIZE else sz)
        in if size1 > 2048
           then Returned r ((mmap r (ROUND_UP size1 PAGE_SIZE) s1)\<lparr>in_malloc := False\<rparr>)
           else
             let index = nat (class_index size1);
                 size2 = class_size size1
             in if blockPtrs s1 ! index = NULL \<or> hdr_freelist (mem s1) (blockPtrs s1 ! index) = NULL
                then (case bootstrap r index size2 s1 of
                        Returned u s2 \<Rightarrow> pop index s2
                      | Hang s2 \<Rightarrow> Hang s2
                      | Exit c s2 \<Rightarrow> Exit c s2
                      | Trapped t \<Rightarrow> Trapped t)
                else pop index s1)"

subsection \<open>xxmalloc_usable_size and xxfree\<close>

definition xxmalloc_usable_size :: "state \<Rightarrow> addr \<Rightarrow> size_t" where
  "xxmalloc_usable_size s ptr =
     (if ptr = NULL then 0
      else
        let blockHeader = ROUND_DOWN_intptr ptr 0x1000
        in if hdr_magicNum (mem s) blockHeader \<noteq> MAGIC then PAGE_SIZE
           else hdr_size (mem s) blockHeader)"


text \<open>
  The state at program start: zeroed globals, nothing mapped. The address \<open>0x4040a0\<close>
  stands for the one the linker gives \<open>emergency_block\<close>.
\<close>

definition init_state :: state where
  "init_state =
     \<lparr>in_malloc = False, use_emergency_block = False, emergency_block = 0x4040a0,
      blockPtrs = replicate 8 NULL, p = NULL, offset = 0, mem = (\<lambda>a. 0), mapped = []\<rparr>"

section \<open>Pages, blocks and freelists\<close>

text \<open>
  The vocabulary of the properties. A user-space address is one whose \<open>intptr_t\<close>
  value is not negative. \<open>page_base\<close> is an address rounded down to its page boundary,
  and \<open>in_page pg a\<close> says that \<open>a\<close> lies in the 4096 bytes that start at \<open>pg\<close>.
\<close>

definition page_aligned :: "addr \<Rightarrow> bool" where
  "page_aligned a \<longleftrightarrow> unat a mod 4096 = 0"

definition user_addr :: "addr \<Rightarrow> bool" where
  "user_addr a \<longleftrightarrow> 0 \<le> sint a"

definition page_base :: "addr \<Rightarrow> addr" where
  "page_base a = word_of_nat (4096 * (unat a div 4096))"

definition in_page :: "addr \<Rightarrow> addr \<Rightarrow> bool" where
  "in_page pg a \<longleftrightarrow> unat (a - pg) < 4096"

text \<open>The header region of a page of block size \<open>sz\<close>: the header, rounded up to \<open>sz\<close>.\<close>

definition hdr_region :: "size_t \<Rightarrow> nat" where
  "hdr_region sz = unat (ROUND_UP sizeof_Header sz)"

text \<open>
  \<open>block_start sz pg n\<close>: \<open>n\<close> is the start of a block of the page \<open>pg\<close>, at an
  offset that is a multiple of \<open>sz\<close> and not inside the header region.
\<close>

definition block_start :: "size_t \<Rightarrow> addr \<Rightarrow> addr \<Rightarrow> bool" where
  "block_start sz pg n \<longleftrightarrow>
     unat (n - pg) < 4096 \<and> hdr_region sz \<le> unat (n - pg) \<and> unat (n - pg) mod unat sz = 0"

text \<open>The eight block sizes, 16 to 2048.\<close>

definition valid_block_size :: "size_t \<Rightarrow> bool" where
  "valid_block_size sz \<longleftrightarrow> sz \<in> set (map (\<lambda>j. 2 ^ j) [4..<12])"

text \<open>The nodes on the freelist of the page \<open>pg\<close>: those reached from the header's head.\<close>

inductive on_freelist :: "memory \<Rightarrow> addr \<Rightarrow> addr \<Rightarrow> bool" for m :: memory and pg :: addr where
  head: "hdr_freelist m pg \<noteq> NULL \<Longrightarrow> on_freelist m pg (hdr_freelist m pg)"
| step: "on_freelist m pg n \<Longrightarrow> node_next m n \<noteq> NULL \<Longrightarrow> on_freelist m pg (node_next m n)"

text \<open>\<open>fl_list m h xs\<close>: starting at \<open>h\<close>, the \<open>next\<close> links visit exactly \<open>xs\<close> and end in \<open>NULL\<close>.\<close>

primrec fl_list :: "memory \<Rightarrow> addr \<Rightarrow> addr list \<Rightarrow> bool" where
  "fl_list m h [] \<longleftrightarrow> h = NULL"
| "fl_list m h (x # xs) \<longleftrightarrow> h = x \<and> x \<noteq> NULL \<and> fl_list m (node_next m x) xs"

text \<open>
  The offsets the loop of lines 131 to 136 visits from \<open>off\<close> on, and one round of its
  body on the memory.
\<close>

function blocks_from :: "nat \<Rightarrow> nat \<Rightarrow> nat list" where
  "blocks_from sz off = (if off < 4096 \<and> 0 < sz then off # blocks_from sz (off + sz) else [])"
  by pat_completeness auto
termination
  by (relation "measure (\<lambda>(sz, off). 4096 - off)") auto

declare blocks_from.simps [simp del]

definition link_block :: "addr \<Rightarrow> memory \<Rightarrow> addr \<Rightarrow> memory" where
  "link_block base m n = set_freelist (set_node_next m n (hdr_freelist m base)) base n"

text \<open>
  The blocks of a freshly carved page of block size \<open>sz\<close> at \<open>r\<close>, in the order the
  loop visits them, and the memory after lines 118 to 136 have set up the page.
\<close>

definition page_blocks :: "addr \<Rightarrow> size_t \<Rightarrow> addr list" where
  "page_blocks r sz = map (\<lambda>k. r + of_nat k) (blocks_from (unat sz) (hdr_region sz))"

definition boot_mem :: "memory \<Rightarrow> addr \<Rightarrow> size_t \<Rightarrow> addr \<Rightarrow> memory" where
  "boot_mem m r sz nxt =
     foldl (link_block r)
       (set_freelist (set_size (set_magicNum (set_next m r nxt) r MAGIC) r sz) r NULL)
       (page_blocks r sz)"

text \<open>
  An owned page is a page-aligned user-space address whose header carries the validity
  marker: that is how \<open>xxfree\<close> and \<open>xxmalloc_usable_size\<close> recognise one.
\<close>

definition owned_page :: "memory \<Rightarrow> addr \<Rightarrow> bool" where
  "owned_page m pg \<longleftrightarrow> page_aligned pg \<and> user_addr pg \<and> hdr_magicNum m pg = MAGIC"

definition page_ok :: "memory \<Rightarrow> addr \<Rightarrow> bool" where
  "page_ok m pg \<longleftrightarrow>
     valid_block_size (hdr_size m pg) \<and>
     (\<forall>n. on_freelist m pg n \<longrightarrow> block_start (hdr_size m pg) pg n)"

definition table_ok :: "state \<Rightarrow> bool" where
  "table_ok s \<longleftrightarrow>
     length (blockPtrs s) = 8 \<and>
     (\<forall>i < 8. blockPtrs s ! i \<noteq> NULL \<longrightarrow>
        owned_page (mem s) (blockPtrs s ! i) \<and> hdr_size (mem s) (blockPtrs s ! i) = 2 ^ (i + 4))"

text \<open>
  The invariant of the allocator between calls: no call is in progress, the emergency flag
  is clear, every table entry is an owned page of its class, and every owned page has a
  valid block size and a freelist of block starts.
\<close>

definition heap_ok :: "state \<Rightarrow> bool" where
  "heap_ok s \<longleftrightarrow> table_ok s \<and> (\<forall>pg. owned_page (mem s) pg \<longrightarrow> page_ok (mem s) pg)"

definition inv :: "state \<Rightarrow> bool" where
  "inv s \<longleftrightarrow> \<not> in_malloc s \<and> \<not> use_emergency_block s \<and> heap_ok s"


text \<open>
  What the Page Source promises of a page it hands out: it is not \<open>NULL\<close>, it is
  page-aligned and in user space, and it is not a page the allocator already owns.
\<close>

definition page_source_ok :: "state \<Rightarrow> addr \<Rightarrow> bool" where
  "page_source_ok s r \<longleftrightarrow>
     r \<noteq> NULL \<and> page_aligned r \<and> user_addr r \<and> hdr_magicNum (mem s) r \<noteq> MAGIC"

text \<open>
  Concrete scenarios: three page bases as the Page Source may return them, and the states
  after a first \<open>xxmalloc(2048)\<close> or \<open>xxmalloc(16)\<close> on the page \<open>page_A\<close>.
\<close>

definition page_A :: addr where
  "page_A = 0x7f0000000000"









section \<open>Properties\<close>

subsection \<open>The builtins and the size classes\<close>

lemma bit_hi: fixes w :: "'a::len word" assumes "unat w < 2 ^ k" "k \<le> i" shows "\<not> bit w i"
proof
  assume "bit w i"
  then have "bit (unat w) i" by (simp add: bit_unsigned_iff bit_imp_possible_bit)
  then have "odd (unat w div 2 ^ i)" by (simp add: bit_nat_def)
  moreover have "unat w < 2 ^ i" using assms 
    by (meson le_trans linorder_not_le one_le_numeral power_increasing)
  ultimately show False by simp
qed

lemma bit_top: fixes w :: "'a::len word" assumes "2 ^ k \<le> unat w" "unat w < 2 ^ Suc k" shows "bit w k"
proof -
  have "unat w div 2 ^ k = 1" using assms
    by (simp add: div_nat_eqI)
  then have "bit (unat w) k" by (simp add: bit_nat_def)
  then show ?thesis by (simp add: bit_unsigned_iff)
qed

lemma clzl_eq: assumes "2 ^ k \<le> unat w" "unat w < 2 ^ Suc k" shows "clzl w = 63 - k"
proof -
  have k: "k < 64" 
  proof (rule ccontr)
    assume "\<not> k < 64"
    then have "(2::nat) ^ 64 \<le> 2 ^ k" by (intro power_increasing) auto
    moreover have "unat w < 2 ^ 64" using unsigned_less [of w] by simp
    ultimately show False using assms by simp
  qed
  let ?xs = "rev [0..<64]"
  have nth: "\<And>i. i < 64 \<Longrightarrow> ?xs ! i = 63 - i" by (simp add: rev_nth)
  have "takeWhile (\<lambda>i. \<not> bit w i) ?xs = take (63 - k) ?xs"
  proof (rule takeWhile_eq_take_P_nth)
    fix i assume "i < 63 - k" "i < length ?xs"
    then show "\<not> bit w (?xs ! i)" using bit_hi [OF assms(2), of "63 - i"] nth by simp
  next
    show "\<not> \<not> bit w (?xs ! (63 - k))" using bit_top [OF assms] nth k by simp
  qed
  then show ?thesis using k by (simp add: clzl_def)
qed

lemma ctz_pow2: assumes "k < 32" shows "ctz (2 ^ k) = k"
proof -
  let ?xs = "[0..<32]"
  have "takeWhile (\<lambda>i. \<not> bit (2 ^ k :: 32 word) i) ?xs = take k ?xs"
  proof (rule takeWhile_eq_take_P_nth)
    fix i assume "i < k" "i < length ?xs"
    then show "\<not> bit (2 ^ k :: 32 word) (?xs ! i)" by (simp add: bit_exp_iff)
  next
    show "\<not> \<not> bit (2 ^ k :: 32 word) (?xs ! k)" using assms by (simp add: bit_exp_iff)
  qed
  then show ?thesis using assms by (simp add: ctz_def)
qed

lemma ctz_less: fixes w :: "32 word" assumes "2 ^ k < unat w" "unat w < 2 ^ Suc k" shows "ctz w < k"
proof (rule ccontr)
  assume c: "\<not> ctz w < k"
  have k: "k < 32"
  proof (rule ccontr)
    assume "\<not> k < 32"
    then have "(2::nat) ^ 32 \<le> 2 ^ k" by (intro power_increasing) auto
    moreover have "unat w < 2 ^ 32" using unsigned_less [of w] by simp
    ultimately show False using assms by simp
  qed
  have low: "\<not> bit w i" if "i < k" for i
  proof -
    have "i < length (takeWhile (\<lambda>i. \<not> bit w i) [0..<32])" using c that by (simp add: ctz_def)
    then have "takeWhile (\<lambda>i. \<not> bit w i) [0..<32] ! i \<in> set (takeWhile (\<lambda>i. \<not> bit w i) [0..<32])"
      by (rule nth_mem)
    moreover have "takeWhile (\<lambda>i. \<not> bit w i) [0..<32] ! i = i" 
      using \<open>i < length _\<close> k that by (simp add: takeWhile_nth)
    ultimately show ?thesis using set_takeWhileD by fastforce
  qed
  have "take_bit k (unat w) = 0"
    by (rule bit_eqI) (simp add: bit_take_bit_iff bit_unsigned_iff low)
  then have "2 ^ k dvd unat w" by (simp add: take_bit_eq_0_iff)
  then obtain q where q: "unat w = 2 ^ k * q" by (auto simp: dvd_def)
  with assms have "1 < q" "q < 2" by auto
  then show False by simp
qed

lemma unat_2p: "k < LENGTH('a) \<Longrightarrow> unat (2 ^ k :: 'a::len word) = 2 ^ k"
proof -
  assume k: "k < LENGTH('a)"
  have "(2 ^ k :: 'a word) = of_nat (2 ^ k)" by simp
  then have "unat (2 ^ k :: 'a word) = 2 ^ k mod 2 ^ LENGTH('a)" by (simp only: unat_of_nat)
  also have "\<dots> = 2 ^ k" using k by simp
  finally show ?thesis .
qed

lemma unat_ucast_small: "unat (sz :: 64 word) < 2 ^ 32 \<Longrightarrow> unat (ucast sz :: 32 word) = unat sz"
  by (simp add: unsigned_ucast_eq take_bit_nat_eq_self)

lemma word_eq_2p: "k < LENGTH('a) \<Longrightarrow> unat (w :: 'a::len word) = 2 ^ k \<Longrightarrow> w = 2 ^ k"
  by (simp add: word_unat_eq_iff unat_2p)

lemma pow2_le_imp_le: "(2::nat) ^ a \<le> n \<Longrightarrow> n < 2 ^ b \<Longrightarrow> a < b"
  by (meson one_less_numeral_iff order.strict_trans1
    power_strict_increasing_iff semiring_norm(76))

lemma class_cases:
  assumes lo: "16 \<le> unat sz" and hi: "unat sz \<le> 2048"
  obtains j where "4 \<le> j" "j \<le> 11" "class_log2 sz = int j" "unat sz \<le> 2 ^ j" "2 ^ j < 2 * unat sz"
                  "\<And>i. unat sz = 2 ^ i \<Longrightarrow> j = i"
proof -
  let ?n = "unat sz"
  obtain k where k: "2 ^ k \<le> ?n" "?n < 2 ^ (k + 1)"
    using ex_power_ivl1 [of 2 ?n] lo by auto
  have k4: "4 \<le> k" 
  proof -
    have "(2::nat) ^ 4 \<le> ?n" using lo by simp
    then have "4 < k + 1" using k(2) by (rule pow2_le_imp_le)
    then show ?thesis by simp
  qed
  have k11: "k \<le> 11"
  proof -
    have "?n < 2 ^ 12" using hi by simp
    with k(1) have "k < 12" by (rule pow2_le_imp_le)
    then show ?thesis by simp
  qed
  have clz: "clzl sz = 63 - k" using k by (intro clzl_eq) auto
  have n32: "?n < 2 ^ 32" using hi by simp
  have u: "unat (ucast sz :: 32 word) = ?n"
    using n32 by (rule unat_ucast_small)
  show thesis
  proof (cases "?n = 2 ^ k")
    case True
    have uc: "(ucast sz :: 32 word) = 2 ^ k" using True u k11 by (intro word_eq_2p) auto
    have ctz: "ctz (ucast sz) = k" unfolding uc using k11 by (intro ctz_pow2) simp
    have l: "class_log2 sz = int k" using clz ctz k11 by (simp add: class_log2_def)
    have e: "k = i" if "unat sz = 2 ^ i" for i
    proof -
      have "(2::nat) ^ k = 2 ^ i" using that True by simp
      then show ?thesis by simp
    qed
    have "?n \<le> 2 ^ k" using True by simp
    moreover have "2 ^ k < 2 * ?n" using True by simp
    ultimately show ?thesis using k4 k11 l e by (rule_tac that [of k])
  next
    case False
    then have "2 ^ k < unat (ucast sz :: 32 word)" "unat (ucast sz :: 32 word) < 2 ^ Suc k"
      using k u by auto
    then have ctz: "ctz (ucast sz) < k" by (rule ctz_less)
    have k10: "k \<le> 10"
    proof (rule ccontr)
      assume "\<not> k \<le> 10"
      with k11 have "k = 11" by simp
      with k False hi show False by simp
    qed
    have l: "class_log2 sz = int (k + 1)" using clz ctz k11 by (simp add: class_log2_def)
    have e: "k + 1 = i" if "unat sz = 2 ^ i" for i
    proof -
      have "(2::nat) ^ k \<le> 2 ^ i" "(2::nat) ^ i < 2 ^ (k + 1)" using k that by simp_all
      then have "k \<le> i" "i < k + 1" by (simp_all only: power_increasing_iff power_strict_increasing_iff one_less_numeral_iff semiring_norm)
      then have "i = k" by simp
      with that False show ?thesis by simp
    qed
    have "?n \<le> 2 ^ (k + 1)" using k(2) by simp
    moreover have "(2::nat) ^ (k + 1) < 2 * ?n" using k(1) False by simp
    moreover have "4 \<le> k + 1" "k + 1 \<le> 11" using k4 k10 by simp_all
    ultimately show ?thesis using l e by (rule_tac that [of "k + 1"])
  qed
qed

subsection \<open>Addresses and rounding\<close>

lemma sint_user: assumes "user_addr a" shows "sint a = int (unat a)"
proof -
  have "sint a < 2 ^ 63" using sint_lt [of a] by simp
  then have "sint a < 2 ^ 64" by simp
  then have "take_bit 64 (sint a) = sint a" using assms
    by (simp add: take_bit_int_eq_self user_addr_def)
  then have "uint a = sint a" using uint_sint [of a] by simp
  then show ?thesis by simp
qed

lemma user_addr_lt: assumes "user_addr a" shows "unat a < 2 ^ 63"
proof -
  have "int (unat a) < 2 ^ 63" using sint_user [OF assms] sint_lt [of a] by simp
  then show ?thesis by (simp only: of_nat_less_numeral_power_cancel_iff)
qed

lemma user_addrI: assumes "unat a < 2 ^ 63" shows "user_addr a"
proof -
  have "\<not> bit a 63" using assms by (rule bit_hi) simp
  then have "\<not> sint a < 0" using bit_last_iff [of a] by simp
  then show ?thesis by (simp add: user_addr_def)
qed


lemma ROUND_DOWN_intptr_page:
  assumes "user_addr a" shows "ROUND_DOWN_intptr a 0x1000 = page_base a"
proof -
  let ?n = "unat a"
  have "sint a smod 0x1000 = int (?n mod 4096)"
    using sint_user [OF assms] by (simp add: smod_mod_positive zmod_int)
  then have "sint a - (sint a smod 0x1000) = int (?n - ?n mod 4096)"
    using sint_user [OF assms] by (simp add: of_nat_diff)
  also have "?n - ?n mod 4096 = 4096 * (?n div 4096)"
    by (simp add: minus_mod_eq_mult_div)
  finally show ?thesis by (simp add: ROUND_DOWN_intptr_def page_base_def)
qed

lemma round_up_mod: 
  assumes "(k::nat) < 4096" "n mod 4096 = k" shows "(n + (4096 - k)) mod 4096 = 0"
proof -
  have "n div 4096 * 4096 + k = n" using assms(2) div_mult_mod_eq [of n 4096] by simp
  then have "n + (4096 - k) = (n div 4096 + 1) * 4096" using assms(1) by simp
  then show ?thesis by (simp only: mod_mult_self2_is_0)
qed

lemma um1: "unat (- 1 :: 64 word) = 18446744073709551615"
  by (simp add: unsigned_minus_1_eq_mask mask_eq_exp_minus_1)

lemma page_aligned_not_failed: "page_aligned r \<Longrightarrow> r \<noteq> MAP_FAILED"
  by (auto simp: page_aligned_def MAP_FAILED_def um1)

lemma ROUND_UP_page:
  assumes "unat n \<le> 2 ^ 64 - 4096"
  shows "unat (ROUND_UP n PAGE_SIZE) mod 4096 = 0 \<and> unat n \<le> unat (ROUND_UP n PAGE_SIZE)
         \<and> unat (ROUND_UP n PAGE_SIZE) < unat n + 4096"
proof (cases "unat n mod 4096 = 0")
  case True
  then have "n mod 0x1000 = 0" by (simp add: word_unat_eq_iff unat_mod_distrib)
  with True show ?thesis by (simp add: ROUND_UP_def PAGE_SIZE_def)
next
  case False
  let ?k = "unat n mod 4096"
  have k: "0 < ?k" "?k < 4096" using False by simp_all
  have nz: "n mod 0x1000 \<noteq> 0" using False by (simp add: word_unat_eq_iff unat_mod_distrib)
  have um: "unat (n mod 0x1000) = ?k" by (simp add: unat_mod_distrib)
  have "unat (0x1000 - n mod 0x1000 :: 64 word) = 4096 - ?k"
    using k um by (simp add: unat_sub word_le_nat_alt)
  moreover have "unat n + (4096 - ?k) < 2 ^ 64" using assms k by simp
  ultimately have u: "unat (n + (0x1000 - n mod 0x1000)) = unat n + (4096 - ?k)"
    by (simp add: unat_add_lem [THEN iffD1])
  have "(unat n + (4096 - ?k)) mod 4096 = 0"
    using k(2) by (rule round_up_mod) simp
  moreover have "unat n + (4096 - ?k) < unat n + 4096" using k by simp
  ultimately show ?thesis using nz u by (simp add: ROUND_UP_def PAGE_SIZE_def)
qed

subsection \<open>The large-object path\<close>

lemma xxmalloc_large:
  assumes "\<not> use_emergency_block s" and "\<not> in_malloc s" and "2048 < sz"
  shows "xxmalloc r s sz =
           Returned r ((mmap r (ROUND_UP sz PAGE_SIZE) (s\<lparr>in_malloc := True\<rparr>))\<lparr>in_malloc := False\<rparr>)"
proof -
  have "sz \<noteq> 0" using assms(3) by auto
  moreover have "\<not> sz < MIN_MALLOC_SIZE"
    using assms(3) by (simp add: MIN_MALLOC_SIZE_def word_less_nat_alt)
  ultimately show ?thesis using assms by (simp add: xxmalloc_def)
qed

subsection \<open>Addresses within a page\<close>

lemma unat_of_nat_small: "k < 2 ^ 64 \<Longrightarrow> unat (of_nat k :: 64 word) = k"
  by (simp add: unat_of_nat)

lemma unat_of_nat_page: "k < 4096 \<Longrightarrow> unat (of_nat k :: 64 word) = k"
  by (rule unat_of_nat_small) simp

lemma aligned_le: assumes "page_aligned pg" shows "unat pg + 4096 \<le> 2 ^ 64"
proof -
  obtain q where q: "unat pg = 4096 * q" using assms by (auto simp: page_aligned_def)
  have "unat pg < 2 ^ 64" using unsigned_less [of pg] by simp
  then have "4096 * q < 4096 * 4503599627370496" using q by simp
  then have "q < 4503599627370496" by (simp only: mult_less_cancel1) 
  then have "4096 * (q + 1) \<le> 4096 * 4503599627370496" by (simp only: mult_le_mono2 Suc_leI Suc_eq_plus1 [symmetric])
  then show ?thesis using q by simp
qed

lemma unat_page_add:
  assumes "page_aligned pg" "k < 4096" shows "unat (pg + of_nat k) = unat pg + k"
proof -
  have k: "unat (of_nat k :: 64 word) = k" using assms(2) by (intro unat_of_nat_small) simp
  have "unat pg + k < 2 ^ 64" using aligned_le [OF assms(1)] assms(2) by simp
  then show ?thesis using k unat_add_lem [of pg "of_nat k"] by simp
qed

lemma page_add_sub: "k < 4096 \<Longrightarrow> unat ((pg + of_nat k) - pg :: 64 word) = k"
  by (simp add: unat_of_nat_page)

lemma in_page_add: "k < 4096 \<Longrightarrow> in_page pg (pg + of_nat k)"
  by (simp add: in_page_def unat_of_nat_page)

lemma in_pageD: assumes "in_page pg a" obtains k where "k < 4096" "a = pg + of_nat k"
proof -
  have "a = pg + of_nat (unat (a - pg))" by simp
  then show thesis using assms that unfolding in_page_def by blast
qed

lemma pages_disjoint:
  assumes "page_aligned pg" "page_aligned pg'" "in_page pg a" "in_page pg' a"
  shows "pg = pg'"
proof -
  obtain k where k: "k < 4096" "a = pg + of_nat k" using assms(3) by (rule in_pageD)
  obtain k' where k': "k' < 4096" "a = pg' + of_nat k'" using assms(4) by (rule in_pageD)
  have e: "unat pg + k = unat pg' + k'"
    using unat_page_add [OF assms(1) k(1)] unat_page_add [OF assms(2) k'(1)] k(2) k'(2) by simp
  obtain q where q: "unat pg = 4096 * q" using assms(1) by (auto simp: page_aligned_def)
  obtain q' where q': "unat pg' = 4096 * q'" using assms(2) by (auto simp: page_aligned_def)
  have "(4096 * q + k) div 4096 = (4096 * q' + k') div 4096" using e q q' by simp
  then have "q = q'" using k(1) k'(1) by simp
  then show ?thesis using q q' by (simp add: word_unat_eq_iff)
qed

lemma page_base_add:
  assumes "page_aligned pg" "k < 4096" shows "page_base (pg + of_nat k) = pg"
proof -
  obtain q where q: "unat pg = 4096 * q" using assms(1) by (auto simp: page_aligned_def)
  have "unat (pg + of_nat k) div 4096 = q"
    using unat_page_add [OF assms] q assms(2) by simp
  then have "page_base (pg + of_nat k) = word_of_nat (unat pg)" using q by (simp add: page_base_def)
  then show ?thesis by simp
qed

lemma user_addr_add:
  assumes "page_aligned pg" "user_addr pg" "k < 4096" shows "user_addr (pg + of_nat k)"
proof -
  obtain q where q: "unat pg = 4096 * q" using assms(1) by (auto simp: page_aligned_def)
  have "4096 * q < 4096 * 2251799813685248" using user_addr_lt [OF assms(2)] q by simp
  then have "q < 2251799813685248" by (simp only: mult_less_cancel1) 
  then have "4096 * (q + 1) \<le> 4096 * 2251799813685248" by (simp only: mult_le_mono2 Suc_leI Suc_eq_plus1 [symmetric])
  then have "unat pg + k < 2 ^ 63" using q assms(3) by simp
  then show ?thesis using unat_page_add [OF assms(1,3)] by (intro user_addrI) simp
qed

lemma page_add_inj: "k < 4096 \<Longrightarrow> k' < 4096 \<Longrightarrow> (pg + of_nat k = (pg + of_nat k' :: 64 word)) = (k = k')"
proof -
  assume a: "k < 4096" "k' < 4096"
  have "(of_nat k = (of_nat k' :: 64 word)) = (k = k')"
    using a by (simp add: word_unat_eq_iff unat_of_nat_page)
  then show ?thesis by simp
qed

lemma page_add_nonzero:
  assumes "page_aligned pg" "k < 4096" "0 < k" shows "pg + of_nat k \<noteq> NULL"
proof
  assume "pg + of_nat k = NULL"
  then have "unat (pg + of_nat k) = 0" by (simp add: NULL_def)
  then show False using unat_page_add [OF assms(1,2)] assms(3) by simp
qed

subsection \<open>Block sizes, header fields and linked lists\<close>

lemma upt_4_12: "[4..<12] = [4, 5, 6, 7, 8, 9, 10, 11 :: nat]"
  by code_simp

lemma valid_block_size_iff:
  "valid_block_size sz \<longleftrightarrow> sz \<in> {16, 32, 64, 128, 256, 512, 1024, 2048}"
  by (auto simp: valid_block_size_def upt_4_12)

lemma class_exponent_cases:
  "4 \<le> j \<Longrightarrow> j \<le> 11 \<Longrightarrow> j = 4 \<or> j = 5 \<or> j = 6 \<or> j = 7 \<or> j = 8 \<or> j = 9 \<or> j = 10 \<or> j = (11::nat)"
  by arith

lemma valid_block_size_2p: "4 \<le> j \<Longrightarrow> j \<le> 11 \<Longrightarrow> valid_block_size (2 ^ j)"
  using class_exponent_cases [of j] by (auto simp: valid_block_size_iff)

lemma ROUND_UP_Header:
  "ROUND_UP sizeof_Header 16 = 32" "ROUND_UP sizeof_Header 32 = 32"
  "ROUND_UP sizeof_Header 64 = 64" "ROUND_UP sizeof_Header 128 = 128"
  "ROUND_UP sizeof_Header 256 = 256" "ROUND_UP sizeof_Header 512 = 512"
  "ROUND_UP sizeof_Header 1024 = 1024" "ROUND_UP sizeof_Header 2048 = 2048"
  by code_simp+

lemma valid_block_size_facts:
  assumes "valid_block_size sz"
  shows "16 \<le> unat sz" and "unat sz \<le> 2048" and "32 \<le> hdr_region sz" and "hdr_region sz < 4096"
    and "hdr_region sz mod unat sz = 0" and "4096 mod unat sz = 0" and "unat sz mod 16 = 0"
    and "hdr_region sz + unat sz \<le> 4096"
  using assms unfolding valid_block_size_iff
  by (auto simp: hdr_region_def ROUND_UP_Header)

lemma magic_roundtrip: "hdr_magicNum (set_magicNum m h v) h = v"
proof -
  have "ucast ((m h AND NOT (mask 32)) OR ucast v :: 64 word) = v"
    by (rule bit_word_eqI) (auto simp: bit_simps)
  then show ?thesis by (simp add: hdr_magicNum_def set_magicNum_def)
qed

lemma fl_list_upd: "a \<notin> set xs \<Longrightarrow> fl_list (m(a := v)) h xs = fl_list m h xs"
  by (induction xs arbitrary: h) (auto simp: node_next_def)

lemma fl_list_fun: "fl_list m h xs \<Longrightarrow> fl_list m h ys \<Longrightarrow> xs = ys"
proof (induction xs arbitrary: h ys)
  case Nil
  then show ?case by (cases ys) auto
next
  case (Cons x xs)
  then show ?case by (cases ys) auto
qed

lemma link_block_apply:
  "link_block base m n = (m(n := m (base + 16)))(base + 16 := n)"
  by (simp add: link_block_def set_freelist_def set_node_next_def hdr_freelist_def)

lemma foldl_link_frame:
  "a \<notin> set ns \<Longrightarrow> a \<noteq> base + 16 \<Longrightarrow> foldl (link_block base) m ns a = m a"
  by (induction ns arbitrary: m) (auto simp: link_block_apply)

lemma foldl_link_list:
  assumes "distinct ns" "base + 16 \<notin> set ns" "base + 16 \<notin> set ys" "NULL \<notin> set ns"
    "set ns \<inter> set ys = {}" "fl_list m (m (base + 16)) ys"
  shows "fl_list (foldl (link_block base) m ns) (foldl (link_block base) m ns (base + 16)) (rev ns @ ys)"
  using assms
proof (induction ns arbitrary: m ys)
  case Nil
  then show ?case by simp
next
  case (Cons n ns)
  let ?m = "link_block base m n"
  have n: "n \<noteq> base + 16" "n \<noteq> NULL" "n \<notin> set ys" "n \<notin> set ns" using Cons.prems by auto
  have "fl_list ?m (m (base + 16)) ys"
    using Cons.prems(3,6) n by (simp add: link_block_apply fl_list_upd)
  then have "fl_list ?m (?m (base + 16)) (n # ys)"
    using n by (simp add: link_block_apply node_next_def)
  moreover have "distinct ns" "base + 16 \<notin> set ns" "base + 16 \<notin> set (n # ys)" "NULL \<notin> set ns"
    "set ns \<inter> set (n # ys) = {}"
    using Cons.prems n by auto
  ultimately have "fl_list (foldl (link_block base) ?m ns) (foldl (link_block base) ?m ns (base + 16))
      (rev ns @ (n # ys))"
    by (intro Cons.IH)
  then show ?case by simp
qed

lemma on_freelist_in_list:
  assumes "on_freelist m pg n" "fl_list m (hdr_freelist m pg) xs"
  shows "n \<in> set xs \<and> (\<exists>ys. fl_list m (node_next m n) ys \<and> set ys \<subseteq> set xs)"
  using assms
proof (induction rule: on_freelist.induct)
  case head
  then show ?case by (cases xs) auto
next
  case (step n)
  then obtain ys where ys: "fl_list m (node_next m n) ys" "set ys \<subseteq> set xs" by blast
  with step.hyps(2) show ?case by (cases ys) auto
qed

subsection \<open>The carving loop\<close>


lemma blocks_from_set:
  "k \<in> set (blocks_from sz off) \<Longrightarrow> off \<le> k \<and> k < 4096 \<and> (k - off) mod sz = 0"
proof (induction sz off rule: blocks_from.induct)
  case (1 sz off)
  show ?case
  proof (cases "off < 4096 \<and> 0 < sz")
    case True
    then have "k = off \<or> k \<in> set (blocks_from sz (off + sz))"
      using "1.prems" by (subst (asm) blocks_from.simps) auto
    then show ?thesis
    proof
      assume "k = off" then show ?thesis using True by simp
    next
      assume "k \<in> set (blocks_from sz (off + sz))"
      then have h: "off + sz \<le> k" "k < 4096" "(k - (off + sz)) mod sz = 0" using "1.IH" True by auto
      have "k - off = (k - (off + sz)) + sz" using h(1) by simp
      then have "(k - off) mod sz = 0" using h(3) by (simp only: mod_add_self2)
      then show ?thesis using h by simp
    qed
  next
    case False
    then show ?thesis using "1.prems" by (subst (asm) blocks_from.simps) auto
  qed
qed

lemma blocks_from_distinct: "distinct (blocks_from sz off)"
proof (induction sz off rule: blocks_from.induct)
  case (1 sz off)
  show ?case
  proof (cases "off < 4096 \<and> 0 < sz")
    case True
    have "off \<notin> set (blocks_from sz (off + sz))" using blocks_from_set [of off sz "off + sz"] True by auto
    then show ?thesis using "1.IH" True by (subst blocks_from.simps) auto
  next
    case False
    then show ?thesis by (subst blocks_from.simps) auto
  qed
qed

lemma blocks_from_length:
  "0 < sz \<Longrightarrow> off \<le> 4096 \<Longrightarrow> (4096 - off) mod sz = 0 \<Longrightarrow> length (blocks_from sz off) = (4096 - off) div sz"
proof (induction sz off rule: blocks_from.induct)
  case (1 sz off)
  show ?case
  proof (cases "off < 4096")
    case True
    have "sz dvd 4096 - off" using "1.prems"(3) by (simp add: dvd_eq_mod_eq_0)
    then have le: "sz \<le> 4096 - off" using True by (intro dvd_imp_le) auto
    then have a: "off + sz \<le> 4096" using True by simp
    have d: "4096 - off = (4096 - (off + sz)) + sz" using le by simp
    have b: "(4096 - (off + sz)) mod sz = 0"
      using "1.prems"(3) by (subst (asm) d) (simp only: mod_add_self2)
    have "(x + sz) div sz = x div sz + 1" for x using "1.prems"(1) div_add_self2 [of sz x] by simp
    from this [of "4096 - (off + sz)"] have "(4096 - off) div sz = (4096 - (off + sz)) div sz + 1"
      by (simp only: d [symmetric])
    moreover have "length (blocks_from sz (off + sz)) = (4096 - (off + sz)) div sz"
      using "1.IH" True "1.prems"(1) a b by simp
    ultimately show ?thesis using True "1.prems"(1) by (subst blocks_from.simps) simp
  next
    case False
    then have "off = 4096" using "1.prems"(2) by simp
    then show ?thesis by (subst blocks_from.simps) simp
  qed
qed

lemma carve_eq:
  assumes "0 < unat sz" "unat sz \<le> 4096" "unat off < 8192"
  shows "\<exists>off'. carve sz base off m
           = Some (off', foldl (link_block base) m (map (\<lambda>k. base + of_nat k) (blocks_from (unat sz) (unat off))))"
  using assms(3)
proof (induction "8192 - unat off" arbitrary: off m rule: less_induct)
  case less
  show ?case
  proof (cases "unat off < 4096")
    case True
    then have lt: "off < PAGE_SIZE" by (simp add: word_less_nat_alt PAGE_SIZE_def)
    have u: "unat (off + sz) = unat off + unat sz"
      using True assms(2) unat_add_lem [of off sz] by simp
    let ?m = "link_block base m (base + off)"
    have "8192 - unat (off + sz) < 8192 - unat off" using u assms(1) less.prems by simp
    moreover have "unat (off + sz) < 8192" using u True assms(2) by simp
    ultimately obtain off' where
      "carve sz base (off + sz) ?m
         = Some (off', foldl (link_block base) ?m (map (\<lambda>k. base + of_nat k) (blocks_from (unat sz) (unat (off + sz)))))"
      using less.hyps by blast
    moreover have "blocks_from (unat sz) (unat off) = unat off # blocks_from (unat sz) (unat (off + sz))"
      using True assms(1) u by (subst blocks_from.simps) simp
    moreover have "carve sz base off m = carve sz base (off + sz) ?m"
      using lt by (subst carve.simps) (simp add: link_block_def)
    ultimately show ?thesis by simp
  next
    case False
    then have "\<not> off < PAGE_SIZE" by (simp add: word_less_nat_alt PAGE_SIZE_def)
    then have "carve sz base off m = Some (off, m)" by (subst carve.simps) simp
    moreover have "blocks_from (unat sz) (unat off) = []" using False by (subst blocks_from.simps) simp
    ultimately show ?thesis by simp
  qed
qed

subsection \<open>A freshly carved page\<close>

lemma page_blocks_mem:
  assumes "valid_block_size sz" "n \<in> set (page_blocks r sz)"
  obtains k where "n = r + of_nat k" "hdr_region sz \<le> k" "k < 4096" "k mod unat sz = 0" "32 \<le> k"
proof -
  obtain k where k: "n = r + of_nat k" "k \<in> set (blocks_from (unat sz) (hdr_region sz))"
    using assms(2) by (auto simp: page_blocks_def)
  have b: "hdr_region sz \<le> k" "k < 4096" "(k - hdr_region sz) mod unat sz = 0"
    using blocks_from_set [OF k(2)] by auto
  have "unat sz dvd k - hdr_region sz" "unat sz dvd hdr_region sz"
    using b(3) valid_block_size_facts(5) [OF assms(1)] by (simp_all add: dvd_eq_mod_eq_0)
  then have "unat sz dvd (k - hdr_region sz) + hdr_region sz" by (rule dvd_add)
  then have "unat sz dvd k" using b(1) by simp
  then have c: "k mod unat sz = 0" by (simp add: dvd_eq_mod_eq_0)
  have d: "32 \<le> k" using b(1) valid_block_size_facts(3) [OF assms(1)] by simp
  show thesis using k(1) b(1,2) c d by (rule that)
qed

lemma low_cell_not_block:
  assumes "valid_block_size sz" "j < 32" shows "r + of_nat j \<notin> set (page_blocks r sz)"
proof
  assume "r + of_nat j \<in> set (page_blocks r sz)"
  then obtain k where k: "r + of_nat j = r + of_nat k" "k < 4096" "32 \<le> k"
    using assms(1) by (elim page_blocks_mem) auto
  have "j = k" using k(1,2) assms(2) page_add_inj [of j k r] by simp
  then show False using k(3) assms(2) by simp
qed

lemma header_cells_not_blocks:
  assumes "valid_block_size sz"
  shows "r \<notin> set (page_blocks r sz)" "r + 8 \<notin> set (page_blocks r sz)"
    "r + 16 \<notin> set (page_blocks r sz)" "r + 24 \<notin> set (page_blocks r sz)"
  using low_cell_not_block [OF assms, of 0 r] low_cell_not_block [OF assms, of 8 r]
    low_cell_not_block [OF assms, of 16 r] low_cell_not_block [OF assms, of 24 r]
  by simp_all

lemma page_blocks_distinct: "distinct (page_blocks r sz)"
proof -
  have "inj_on (\<lambda>k. r + of_nat k) (set (blocks_from (unat sz) (hdr_region sz)))"
  proof (rule inj_onI)
    fix x y assume "x \<in> set (blocks_from (unat sz) (hdr_region sz))"
      "y \<in> set (blocks_from (unat sz) (hdr_region sz))" "r + of_nat x = r + of_nat y"
    then show "x = y" using blocks_from_set [of x] blocks_from_set [of y] page_add_inj [of x y r] by simp
  qed
  then show ?thesis by (simp add: page_blocks_def distinct_map blocks_from_distinct)
qed

lemma page_blocks_nonnull:
  assumes "valid_block_size sz" "page_aligned r" shows "NULL \<notin> set (page_blocks r sz)"
proof
  assume "NULL \<in> set (page_blocks r sz)"
  then obtain k where k: "NULL = r + of_nat k" "k < 4096" "32 \<le> k"
    using assms(1) by (elim page_blocks_mem) auto
  then show False using page_add_nonzero [OF assms(2), of k] by simp
qed

lemma page_blocks_block_start:
  assumes "valid_block_size sz" "n \<in> set (page_blocks r sz)" shows "block_start sz r n"
proof -
  obtain k where k: "n = r + of_nat k" "hdr_region sz \<le> k" "k < 4096" "k mod unat sz = 0"
    using assms by (elim page_blocks_mem) auto
  then show ?thesis by (simp add: block_start_def unat_of_nat_page)
qed

lemma page_blocks_in_page:
  assumes "valid_block_size sz" "n \<in> set (page_blocks r sz)" shows "in_page r n"
  using page_blocks_block_start [OF assms] by (simp add: block_start_def in_page_def)

lemma page_blocks_length:
  assumes "valid_block_size sz"
  shows "length (page_blocks r sz) = (4096 - hdr_region sz) div unat sz"
proof -
  note f = valid_block_size_facts [OF assms]
  have d: "unat sz dvd 4096" "unat sz dvd hdr_region sz" using f(5,6) by (simp_all add: dvd_eq_mod_eq_0)
  have "unat sz dvd 4096 - hdr_region sz" using d by (rule dvd_diff_nat)
  then have "(4096 - hdr_region sz) mod unat sz = 0" by (simp add: dvd_eq_mod_eq_0)
  then have "length (blocks_from (unat sz) (hdr_region sz)) = (4096 - hdr_region sz) div unat sz"
    using f(1,4) by (intro blocks_from_length) auto
  then show ?thesis by (simp add: page_blocks_def)
qed

lemma page_blocks_nonempty:
  assumes "valid_block_size sz" shows "page_blocks r sz \<noteq> []"
proof -
  note f = valid_block_size_facts [OF assms]
  have "blocks_from (unat sz) (hdr_region sz) \<noteq> []" using f(1,4) by (subst blocks_from.simps) simp
  then show ?thesis by (simp add: page_blocks_def)
qed

lemma header_cells_distinct:
  "(r::64 word) + 8 \<noteq> r" "r + 16 \<noteq> r" "r + 24 \<noteq> r" "r + 16 \<noteq> r + 8" "r + 24 \<noteq> r + 8" "r + 24 \<noteq> r + 16"
  "r \<noteq> r + 8" "r \<noteq> r + 16" "r \<noteq> r + 24" "r + 8 \<noteq> r + 16" "r + 8 \<noteq> r + 24" "r + 16 \<noteq> r + 24"
  by simp_all

lemma boot_mem_header_cell:
  assumes "valid_block_size sz" "a = r \<or> a = r + 8 \<or> a = r + 24"
  shows "boot_mem m r sz nxt a
           = (set_freelist (set_size (set_magicNum (set_next m r nxt) r MAGIC) r sz) r NULL) a"
proof -
  have "a \<notin> set (page_blocks r sz)" "a \<noteq> r + 16"
    using assms(2) header_cells_not_blocks [OF assms(1), of r] header_cells_distinct [of r] by auto
  then show ?thesis unfolding boot_mem_def by (rule foldl_link_frame)
qed

lemma boot_mem_magic:
  assumes "valid_block_size sz" shows "hdr_magicNum (boot_mem m r sz nxt) r = MAGIC"
proof -
  have "boot_mem m r sz nxt r = (set_magicNum (set_next m r nxt) r MAGIC) r"
    using boot_mem_header_cell [OF assms, of r r m nxt]
    by (simp add: set_freelist_def set_size_def)
  then have "hdr_magicNum (boot_mem m r sz nxt) r = hdr_magicNum (set_magicNum (set_next m r nxt) r MAGIC) r"
    by (simp add: hdr_magicNum_def)
  then show ?thesis by (simp only: magic_roundtrip)
qed

lemma boot_mem_size:
  assumes "valid_block_size sz" shows "hdr_size (boot_mem m r sz nxt) r = sz"
  using boot_mem_header_cell [OF assms, of "r + 8" r m nxt]
  by (simp add: hdr_size_def set_freelist_def set_size_def)

lemma boot_mem_list:
  assumes "valid_block_size sz" "page_aligned r"
  shows "fl_list (boot_mem m r sz nxt) (hdr_freelist (boot_mem m r sz nxt) r) (rev (page_blocks r sz))"
proof -
  let ?m = "set_freelist (set_size (set_magicNum (set_next m r nxt) r MAGIC) r sz) r NULL"
  have "fl_list ?m (?m (r + 16)) []" by (simp add: set_freelist_def)
  then have "fl_list (foldl (link_block r) ?m (page_blocks r sz))
      (foldl (link_block r) ?m (page_blocks r sz) (r + 16)) (rev (page_blocks r sz) @ [])"
    using page_blocks_distinct [of r sz] header_cells_not_blocks(3) [OF assms(1), of r]
      page_blocks_nonnull [OF assms]
    by (intro foldl_link_list) auto
  then show ?thesis by (simp add: boot_mem_def hdr_freelist_def)
qed

lemma boot_mem_frame:
  assumes "valid_block_size sz" "\<not> in_page r a" shows "boot_mem m r sz nxt a = m a"
proof -
  have c: "a \<noteq> r" "a \<noteq> r + 8" "a \<noteq> r + 16" "a \<noteq> r + 24"
    using assms(2) in_page_add [of 0 r] in_page_add [of 8 r] in_page_add [of 16 r] in_page_add [of 24 r]
    by auto
  have "a \<notin> set (page_blocks r sz)" using assms page_blocks_in_page by blast
  then have "boot_mem m r sz nxt a
      = (set_freelist (set_size (set_magicNum (set_next m r nxt) r MAGIC) r sz) r NULL) a"
    unfolding boot_mem_def using c(3) by (rule foldl_link_frame)
  then show ?thesis using c
    by (simp add: set_freelist_def set_size_def set_magicNum_def set_next_def)
qed

lemma bootstrap_eq:
  assumes "page_aligned r" "valid_block_size sz" "i < length (blockPtrs s)"
  shows "\<exists>off'. bootstrap r i sz s
           = Returned () (s\<lparr>blockPtrs := (blockPtrs s)[i := r], p := r, offset := off',
                             mem := boot_mem (mem s) r sz (blockPtrs s ! i),
                             mapped := (r, PAGE_SIZE) # mapped s\<rparr>)"
proof -
  note f = valid_block_size_facts [OF assms(2)]
  let ?m4 = "set_freelist (set_size (set_magicNum (set_next (mem s) r (blockPtrs s ! i)) r MAGIC) r sz) r NULL"
  have "unat (ROUND_UP sizeof_Header sz) < 8192" using f(4) by (simp add: hdr_region_def)
  then obtain off' where c: "carve sz r (ROUND_UP sizeof_Header sz) ?m4
      = Some (off', boot_mem (mem s) r sz (blockPtrs s ! i))"
    using carve_eq [of sz "ROUND_UP sizeof_Header sz" r ?m4] f(1,2)
    by (auto simp: boot_mem_def page_blocks_def hdr_region_def)
  have "bootstrap r i sz s
           = Returned () (s\<lparr>blockPtrs := (blockPtrs s)[i := r], p := r, offset := off',
                             mem := boot_mem (mem s) r sz (blockPtrs s ! i),
                             mapped := (r, PAGE_SIZE) # mapped s\<rparr>)"
    using page_aligned_not_failed [OF assms(1)] assms(3) c
    by (simp add: bootstrap_def mmap_def Let_def)
  then show ?thesis by (rule exI)
qed

subsection \<open>Writes that stay inside one page\<close>

lemma in_page_self: "in_page pg pg" "in_page pg (pg + 8)" "in_page pg (pg + 16)" "in_page pg (pg + 24)"
  using in_page_add [of 0 pg] in_page_add [of 8 pg] in_page_add [of 16 pg] in_page_add [of 24 pg]
  by simp_all

lemma block_start_in_page: "block_start sz pg n \<Longrightarrow> in_page pg n"
  by (simp add: block_start_def in_page_def)

lemma block_startD:
  assumes "block_start sz pg n"
  obtains k where "n = pg + of_nat k" "k < 4096" "hdr_region sz \<le> k" "k mod unat sz = 0"
proof -
  show thesis
    by (rule that [of "unat (n - pg)"]) (use assms in \<open>simp_all add: block_start_def\<close>)
qed

lemma on_freelist_frame:
  assumes "\<And>a. in_page pg a \<Longrightarrow> m' a = m a" "\<And>n. on_freelist m pg n \<Longrightarrow> in_page pg n"
    "on_freelist m' pg n"
  shows "on_freelist m pg n"
  using assms(3)
proof (induction rule: on_freelist.induct)
  case head
  have "hdr_freelist m' pg = hdr_freelist m pg"
    using assms(1) [OF in_page_self(3)] by (simp add: hdr_freelist_def)
  then show ?case using head on_freelist.head [of m pg] by simp
next
  case (step n)
  have "node_next m' n = node_next m n"
    using assms(1) [OF assms(2) [OF step.IH]] by (simp add: node_next_def)
  then show ?case using step on_freelist.step [of m pg n] by simp
qed

lemma page_ok_frame:
  assumes "\<And>a. in_page pg a \<Longrightarrow> m' a = m a" "page_ok m pg"
  shows "page_ok m' pg"
proof -
  have sz: "hdr_size m' pg = hdr_size m pg"
    using assms(1) [OF in_page_self(2)] by (simp add: hdr_size_def)
  have inp: "\<And>n. on_freelist m pg n \<Longrightarrow> in_page pg n"
    using assms(2) block_start_in_page unfolding page_ok_def by blast
  have "block_start (hdr_size m pg) pg n" if "on_freelist m' pg n" for n
    using on_freelist_frame [OF assms(1) inp that] assms(2) unfolding page_ok_def by blast
  then show ?thesis using assms(2) sz unfolding page_ok_def by simp
qed

lemma owned_page_frame:
  assumes "\<And>a. in_page pg a \<Longrightarrow> m' a = m a"
  shows "owned_page m' pg = owned_page m pg"
  using assms [OF in_page_self(1)] by (simp add: owned_page_def hdr_magicNum_def)

lemma heap_ok_page_update:
  assumes ok: "heap_ok s" and frame: "\<And>a. \<not> in_page r a \<Longrightarrow> m' a = mem s a"
    and al: "page_aligned r" and rok: "owned_page m' r \<Longrightarrow> page_ok m' r"
    and len: "length bp = 8"
    and tab: "\<And>i. i < 8 \<Longrightarrow> bp ! i \<noteq> NULL \<Longrightarrow>
                (bp ! i = r \<and> owned_page m' r \<and> hdr_size m' r = 2 ^ (i + 4))
                \<or> (bp ! i \<noteq> r \<and> bp ! i = blockPtrs s ! i)"
    and s': "mem s' = m'" "blockPtrs s' = bp"
  shows "heap_ok s'"
proof -
  have other: "m' a = mem s a" if "page_aligned pg" "pg \<noteq> r" "in_page pg a" for pg a
  proof -
    have "\<not> in_page r a" using pages_disjoint [OF that(1) al that(3)] that(2) by blast
    then show ?thesis by (rule frame)
  qed
  have pages: "page_ok m' pg" if o: "owned_page m' pg" for pg
  proof (cases "pg = r")
    case True
    then show ?thesis using rok o by simp
  next
    case False
    have al': "page_aligned pg" using o by (simp add: owned_page_def)
    have fr: "\<And>a. in_page pg a \<Longrightarrow> m' a = mem s a" using other [OF al' False] by simp
    have "owned_page (mem s) pg" using o owned_page_frame [of pg m' "mem s"] fr by simp
    then have "page_ok (mem s) pg" using ok unfolding heap_ok_def by blast
    then show ?thesis using fr by (rule page_ok_frame [rotated])
  qed
  have table: "owned_page m' (bp ! i) \<and> hdr_size m' (bp ! i) = 2 ^ (i + 4)"
    if i: "i < 8" "bp ! i \<noteq> NULL" for i
    using tab [OF i]
  proof
    assume "bp ! i = r \<and> owned_page m' r \<and> hdr_size m' r = 2 ^ (i + 4)"
    then show ?thesis by simp
  next
    assume a: "bp ! i \<noteq> r \<and> bp ! i = blockPtrs s ! i"
    let ?e = "bp ! i"
    have "blockPtrs s ! i \<noteq> NULL" using a i(2) by simp
    then have o: "owned_page (mem s) ?e" and z: "hdr_size (mem s) ?e = 2 ^ (i + 4)"
      using ok i(1) a unfolding heap_ok_def table_ok_def by auto
    have al': "page_aligned ?e" using o by (simp add: owned_page_def)
    have ne: "?e \<noteq> r" using a by (rule conjunct1)
    have fr: "\<And>a. in_page ?e a \<Longrightarrow> m' a = mem s a" using other [OF al' ne] by simp
    have "owned_page m' ?e" using o owned_page_frame [of ?e m' "mem s"] fr by simp
    moreover have "hdr_size m' ?e = hdr_size (mem s) ?e"
      using fr [OF in_page_self(2)] by (simp add: hdr_size_def)
    ultimately show ?thesis using z by simp
  qed
  show ?thesis unfolding heap_ok_def table_ok_def using pages table len s' by simp
qed

subsection \<open>Bootstrap and pop keep the heap well formed\<close>

lemma boot_page_ok:
  assumes "valid_block_size sz" "page_aligned r" shows "page_ok (boot_mem m r sz nxt) r"
proof -
  let ?m = "boot_mem m r sz nxt"
  have "block_start sz r n" if "on_freelist ?m r n" for n
  proof -
    have "n \<in> set (rev (page_blocks r sz))"
      using on_freelist_in_list [OF that boot_mem_list [OF assms]] by (rule conjunct1)
    then show ?thesis using page_blocks_block_start [OF assms(1)] by simp
  qed
  then show ?thesis using assms(1) by (simp add: page_ok_def boot_mem_size)
qed

lemma bootstrap_heap_ok:
  assumes ok: "heap_ok s" and src: "page_source_ok s r" and i: "i < 8"
    and s': "mem s' = boot_mem (mem s) r (2 ^ (i + 4)) (blockPtrs s ! i)" "blockPtrs s' = (blockPtrs s)[i := r]"
  shows "heap_ok s'"
proof -
  let ?sz = "2 ^ (i + 4) :: size_t"
  let ?m = "boot_mem (mem s) r ?sz (blockPtrs s ! i)"
  have v: "valid_block_size ?sz" using i by (intro valid_block_size_2p) simp_all
  have al: "page_aligned r" and us: "user_addr r" and nm: "hdr_magicNum (mem s) r \<noteq> MAGIC"
    using src by (simp_all add: page_source_ok_def)
  have len: "length (blockPtrs s) = 8" using ok by (simp add: heap_ok_def table_ok_def)
  have own: "owned_page ?m r" using al us boot_mem_magic [OF v] by (simp add: owned_page_def)
  show ?thesis
  proof (rule heap_ok_page_update [OF ok _ al _ _ _ s'])
    fix a assume "\<not> in_page r a"
    then show "?m a = mem s a" using boot_mem_frame [OF v] by simp
  next
    show "page_ok ?m r" using boot_page_ok [OF v al] .
  next
    show "length ((blockPtrs s)[i := r]) = 8" using len by simp
  next
    fix j assume j: "j < 8" "(blockPtrs s)[i := r] ! j \<noteq> NULL"
    show "((blockPtrs s)[i := r] ! j = r \<and> owned_page ?m r \<and> hdr_size ?m r = 2 ^ (j + 4))
          \<or> ((blockPtrs s)[i := r] ! j \<noteq> r \<and> (blockPtrs s)[i := r] ! j = blockPtrs s ! j)"
    proof (cases "j = i")
      case True
      then show ?thesis using own boot_mem_size [OF v] len i by simp
    next
      case False
      then have e: "(blockPtrs s)[i := r] ! j = blockPtrs s ! j" by simp
      then have "blockPtrs s ! j \<noteq> NULL" using j(2) by simp
      then have "owned_page (mem s) (blockPtrs s ! j)"
        using ok j(1) unfolding heap_ok_def table_ok_def by blast
      then have "blockPtrs s ! j \<noteq> r" using nm by (auto simp: owned_page_def)
      then show ?thesis using e by simp
    qed
  qed
qed

lemma block_start_not_header:
  assumes "valid_block_size sz" "block_start sz pg n"
  shows "n \<noteq> pg" "n \<noteq> pg + 8" "n \<noteq> pg + 16" "n \<noteq> pg + 24"
proof -
  obtain k where k: "n = pg + of_nat k" "k < 4096" "hdr_region sz \<le> k"
    using assms(2) by (rule block_startD)
  have k32: "32 \<le> k" using k(3) valid_block_size_facts(3) [OF assms(1)] by simp
  show "n \<noteq> pg" using k32 k(1,2) page_add_inj [of k 0 pg] by simp
  show "n \<noteq> pg + 8" using k32 k(1,2) page_add_inj [of k 8 pg] by simp
  show "n \<noteq> pg + 16" using k32 k(1,2) page_add_inj [of k 16 pg] by simp
  show "n \<noteq> pg + 24" using k32 k(1,2) page_add_inj [of k 24 pg] by simp
qed

lemma block_start_nonnull:
  assumes "valid_block_size sz" "page_aligned pg" "block_start sz pg n" shows "n \<noteq> NULL"
proof -
  obtain k where k: "n = pg + of_nat k" "k < 4096" "hdr_region sz \<le> k"
    using assms(3) by (rule block_startD)
  have "0 < k" using k(3) valid_block_size_facts(3) [OF assms(1)] by simp
  then show ?thesis using page_add_nonzero [OF assms(2) k(2)] k(1) by simp
qed

lemma block_start_not_failed:
  assumes "valid_block_size sz" "page_aligned pg" "block_start sz pg n" shows "n \<noteq> MAP_FAILED"
proof
  assume e: "n = MAP_FAILED"
  obtain k where k: "n = pg + of_nat k" "k < 4096" "hdr_region sz \<le> k" "k mod unat sz = 0"
    using assms(3) by (rule block_startD)
  have "unat n = unat pg + k" using unat_page_add [OF assms(2) k(2)] k(1) by simp
  then have "unat pg + k = 18446744073709551615" using e by (simp add: MAP_FAILED_def um1)
  moreover have "unat pg + 4096 \<le> 18446744073709551616" using aligned_le [OF assms(2)] by simp
  ultimately have "k = 4095" using k(2) by simp
  then show False using k(4) assms(1) unfolding valid_block_size_iff by auto
qed

lemma pop_page_ok:
  assumes ok: "page_ok m h" and f: "hdr_freelist m h \<noteq> NULL"
  shows "page_ok (set_freelist m h (node_next m (hdr_freelist m h))) h"
proof -
  let ?f = "hdr_freelist m h"
  let ?m = "set_freelist m h (node_next m ?f)"
  have v: "valid_block_size (hdr_size m h)" using ok by (simp add: page_ok_def)
  have bs: "\<And>n. on_freelist m h n \<Longrightarrow> block_start (hdr_size m h) h n"
    using ok by (simp add: page_ok_def)
  have sz: "hdr_size ?m h = hdr_size m h" by (simp add: hdr_size_def set_freelist_def)
  have "on_freelist m h n" if "on_freelist ?m h n" for n
    using that
  proof (induction rule: on_freelist.induct)
    case head
    have "hdr_freelist ?m h = node_next m ?f" by (simp add: hdr_freelist_def set_freelist_def)
    moreover have "on_freelist m h ?f" using f by (rule on_freelist.head)
    ultimately show ?case using head on_freelist.step [of m h ?f] by simp
  next
    case (step n)
    have "n \<noteq> h + 16" using block_start_not_header(3) [OF v bs [OF step.IH]] .
    then have "node_next ?m n = node_next m n" by (simp add: node_next_def set_freelist_def)
    then show ?case using step on_freelist.step [of m h n] by simp
  qed
  then show ?thesis using v bs sz by (simp add: page_ok_def)
qed

lemma pop_eq:
  assumes own: "owned_page (mem s) (blockPtrs s ! i)" and ok: "page_ok (mem s) (blockPtrs s ! i)"
    and f: "hdr_freelist (mem s) (blockPtrs s ! i) \<noteq> NULL"
  shows "pop i s = Returned (hdr_freelist (mem s) (blockPtrs s ! i))
           (s\<lparr>p := hdr_freelist (mem s) (blockPtrs s ! i),
              mem := set_freelist (mem s) (blockPtrs s ! i)
                       (node_next (mem s) (hdr_freelist (mem s) (blockPtrs s ! i))),
              in_malloc := False\<rparr>)"
proof -
  let ?h = "blockPtrs s ! i"
  let ?f = "hdr_freelist (mem s) ?h"
  have "on_freelist (mem s) ?h ?f" using f by (rule on_freelist.head)
  then have b: "block_start (hdr_size (mem s) ?h) ?h ?f" using ok by (simp add: page_ok_def)
  have "valid_block_size (hdr_size (mem s) ?h)" "page_aligned ?h"
    using ok own by (simp_all add: page_ok_def owned_page_def)
  then have "?f \<noteq> MAP_FAILED" using b by (rule block_start_not_failed)
  then show ?thesis using f by (simp add: pop_def Let_def)
qed

lemma pop_heap_ok:
  assumes hok: "heap_ok s" and own: "owned_page (mem s) h"
    and f: "hdr_freelist (mem s) h \<noteq> NULL"
    and s': "mem s' = set_freelist (mem s) h (node_next (mem s) (hdr_freelist (mem s) h))"
      "blockPtrs s' = blockPtrs s"
  shows "heap_ok s'"
proof -
  let ?m = "set_freelist (mem s) h (node_next (mem s) (hdr_freelist (mem s) h))"
  have al: "page_aligned h" using own by (simp add: owned_page_def)
  have ok: "page_ok (mem s) h" using hok own unfolding heap_ok_def by blast
  have own': "owned_page ?m h" using own by (simp add: owned_page_def hdr_magicNum_def set_freelist_def)
  have sz: "hdr_size ?m h = hdr_size (mem s) h" by (simp add: hdr_size_def set_freelist_def)
  show ?thesis
  proof (rule heap_ok_page_update [OF hok _ al _ _ _ s'])
    fix a assume "\<not> in_page h a"
    then have "a \<noteq> h + 16" using in_page_self(3) [of h] by auto
    then show "?m a = mem s a" by (simp add: set_freelist_def)
  next
    show "page_ok ?m h" using ok f by (rule pop_page_ok)
  next
    show "length (blockPtrs s) = 8" using hok by (simp add: heap_ok_def table_ok_def)
  next
    fix j assume j: "j < 8" "blockPtrs s ! j \<noteq> NULL"
    have "hdr_size (mem s) (blockPtrs s ! j) = 2 ^ (j + 4)"
      using hok j unfolding heap_ok_def table_ok_def by blast
    then show "(blockPtrs s ! j = h \<and> owned_page ?m h \<and> hdr_size ?m h = 2 ^ (j + 4))
          \<or> (blockPtrs s ! j \<noteq> h \<and> blockPtrs s ! j = blockPtrs s ! j)"
      using own' sz by auto
  qed
qed

subsection \<open>xxfree\<close>










subsection \<open>The size-class path of xxmalloc\<close>

lemma ctz_MIN: "ctz (ucast MIN_MALLOC_SIZE) = 4"
  by code_simp

lemma scast_class:
  assumes "4 \<le> j" "j \<le> 11" shows "(scast (push_bit j (1 :: 32 word)) :: 64 word) = 2 ^ j"
  using class_exponent_cases [OF assms] by (elim disjE) simp_all

lemma clamp_range:
  assumes "n \<noteq> 0" "unat n \<le> 2048"
  shows "16 \<le> unat (if n < MIN_MALLOC_SIZE then MIN_MALLOC_SIZE else n)"
    and "unat (if n < MIN_MALLOC_SIZE then MIN_MALLOC_SIZE else n) \<le> 2048"
    and "\<not> 2048 < (if n < MIN_MALLOC_SIZE then MIN_MALLOC_SIZE else n)"
  using assms by (auto simp: MIN_MALLOC_SIZE_def word_less_nat_alt)

lemma class_facts:
  assumes lo: "16 \<le> unat c" and hi: "unat c \<le> 2048"
  obtains j where "4 \<le> j" "j \<le> 11" "class_size c = 2 ^ j" "nat (class_index c) = j - 4"
    "unat c \<le> 2 ^ j" "2 ^ j < 2 * unat c" "\<And>i. unat c = 2 ^ i \<Longrightarrow> j = i"
proof -
  obtain j where j: "4 \<le> j" "j \<le> 11" "class_log2 c = int j" "unat c \<le> 2 ^ j" "2 ^ j < 2 * unat c"
                  "\<And>i. unat c = 2 ^ i \<Longrightarrow> j = i"
    by (rule class_cases [OF lo hi]) (rule that)
  have s: "class_size c = 2 ^ j" using j(3) scast_class [OF j(1,2)] by (simp add: class_size_def)
  have i: "nat (class_index c) = j - 4" using j(1,3) by (simp add: class_index_def ctz_MIN)
  show thesis using j(1,2) s i j(4,5,6) by (rule that)
qed

lemma heap_ok_cong: "mem s' = mem s \<Longrightarrow> blockPtrs s' = blockPtrs s \<Longrightarrow> heap_ok s' = heap_ok s"
  by (simp add: heap_ok_def table_ok_def)

lemma xxmalloc_small_unfold:
  assumes "\<not> use_emergency_block s" "\<not> in_malloc s" "n \<noteq> 0"
    and "\<not> 2048 < (if n < MIN_MALLOC_SIZE then MIN_MALLOC_SIZE else n)"
  shows "xxmalloc r s n =
     (if blockPtrs s ! nat (class_index (if n < MIN_MALLOC_SIZE then MIN_MALLOC_SIZE else n)) = NULL
         \<or> hdr_freelist (mem s)
              (blockPtrs s ! nat (class_index (if n < MIN_MALLOC_SIZE then MIN_MALLOC_SIZE else n))) = NULL
      then (case bootstrap r (nat (class_index (if n < MIN_MALLOC_SIZE then MIN_MALLOC_SIZE else n)))
                   (class_size (if n < MIN_MALLOC_SIZE then MIN_MALLOC_SIZE else n))
                   (s\<lparr>in_malloc := True\<rparr>) of
              Returned u s2 \<Rightarrow> pop (nat (class_index (if n < MIN_MALLOC_SIZE then MIN_MALLOC_SIZE else n))) s2
            | Hang s2 \<Rightarrow> Hang s2
            | Exit e s2 \<Rightarrow> Exit e s2
            | Trapped t \<Rightarrow> Trapped t)
      else pop (nat (class_index (if n < MIN_MALLOC_SIZE then MIN_MALLOC_SIZE else n))) (s\<lparr>in_malloc := True\<rparr>))"
  using assms by (simp add: xxmalloc_def Let_def)

lemma pop_post:
  assumes hok: "heap_ok s" and own: "owned_page (mem s) (blockPtrs s ! i)"
    and f: "hdr_freelist (mem s) (blockPtrs s ! i) \<noteq> NULL"
  obtains s' where "pop i s = Returned (hdr_freelist (mem s) (blockPtrs s ! i)) s'"
    and "heap_ok s'" and "\<not> in_malloc s'" and "use_emergency_block s' = use_emergency_block s"
    and "blockPtrs s' = blockPtrs s" and "mapped s' = mapped s"
    and "owned_page (mem s') (blockPtrs s ! i)"
    and "hdr_size (mem s') (blockPtrs s ! i) = hdr_size (mem s) (blockPtrs s ! i)"
    and "block_start (hdr_size (mem s) (blockPtrs s ! i)) (blockPtrs s ! i) (hdr_freelist (mem s) (blockPtrs s ! i))"
proof -
  let ?h = "blockPtrs s ! i"
  let ?f = "hdr_freelist (mem s) ?h"
  let ?s = "s\<lparr>p := ?f, mem := set_freelist (mem s) ?h (node_next (mem s) ?f), in_malloc := False\<rparr>"
  have ok: "page_ok (mem s) ?h" using hok own unfolding heap_ok_def by blast
  have 1: "pop i s = Returned ?f ?s" using own ok f by (rule pop_eq)
  have 2: "heap_ok ?s" by (rule pop_heap_ok [OF hok own f]) simp_all
  have 3: "owned_page (mem ?s) ?h"
    using own by (simp add: owned_page_def hdr_magicNum_def set_freelist_def)
  have 4: "hdr_size (mem ?s) ?h = hdr_size (mem s) ?h" by (simp add: hdr_size_def set_freelist_def)
  have "on_freelist (mem s) ?h ?f" using f by (rule on_freelist.head)
  then have 5: "block_start (hdr_size (mem s) ?h) ?h ?f" using ok by (simp add: page_ok_def)
  show thesis by (rule that [OF 1 2 _ _ _ _ 3 4 5]) simp_all
qed

lemma block_start_page_base:
  assumes "page_aligned pg" "block_start sz pg q" shows "page_base q = pg"
proof -
  obtain k where "q = pg + of_nat k" "k < 4096" using assms(2) by (rule block_startD)
  then show ?thesis using page_base_add [OF assms(1)] by simp
qed

lemma boot_mem_head:
  assumes "valid_block_size sz" "page_aligned r"
  shows "hdr_freelist (boot_mem m r sz nxt) r \<noteq> NULL"
proof -
  obtain x xs where "rev (page_blocks r sz) = x # xs"
    using page_blocks_nonempty [OF assms(1), of r] by (cases "rev (page_blocks r sz)") auto
  then show ?thesis using boot_mem_list [OF assms, of m nxt] by auto
qed

lemma xxmalloc_small:
  assumes inv: "inv s" and src: "page_source_ok s r" and n0: "n \<noteq> 0" and n: "unat n \<le> 2048"
  obtains q s' j where "xxmalloc r s n = Returned q s'" and "inv s'" and "4 \<le> j" and "j \<le> 11"
    and "unat (if n < MIN_MALLOC_SIZE then MIN_MALLOC_SIZE else n) \<le> 2 ^ j"
    and "2 ^ j < 2 * unat (if n < MIN_MALLOC_SIZE then MIN_MALLOC_SIZE else n)"
    and "\<And>i. unat (if n < MIN_MALLOC_SIZE then MIN_MALLOC_SIZE else n) = 2 ^ i \<Longrightarrow> j = i"
    and "nat (class_index (if n < MIN_MALLOC_SIZE then MIN_MALLOC_SIZE else n)) = j - 4"
    and "blockPtrs s' ! (j - 4) = page_base q" and "page_base q \<noteq> NULL"
    and "owned_page (mem s') (page_base q)" and "hdr_size (mem s') (page_base q) = 2 ^ j"
    and "block_start (2 ^ j) (page_base q) q"
    and "mapped s' = mapped s \<or> mapped s' = (r, PAGE_SIZE) # mapped s"
proof -
  let ?c = "if n < MIN_MALLOC_SIZE then MIN_MALLOC_SIZE else n"
  note cr = clamp_range [OF n0 n]
  obtain j where j: "4 \<le> j" "j \<le> 11" "class_size ?c = 2 ^ j" "nat (class_index ?c) = j - 4"
    "unat ?c \<le> 2 ^ j" "2 ^ j < 2 * unat ?c" "\<And>i. unat ?c = 2 ^ i \<Longrightarrow> j = i"
    by (rule class_facts [OF cr(1,2)]) (rule that)
  let ?i = "j - 4"
  let ?sz = "2 ^ j :: size_t"
  have i8: "?i < 8" using j(1,2) by simp
  have ij: "?i + 4 = j" using j(1) by simp
  have v: "valid_block_size ?sz" using j(1,2) by (rule valid_block_size_2p)
  have fl: "\<not> use_emergency_block s" "\<not> in_malloc s" and hok: "heap_ok s"
    using inv by (simp_all add: inv_def)
  have len: "length (blockPtrs s) = 8" using hok by (simp add: heap_ok_def table_ok_def)
  have al: "page_aligned r" and us: "user_addr r" and rn: "r \<noteq> NULL"
    using src by (simp_all add: page_source_ok_def)
  let ?s1 = "s\<lparr>in_malloc := True\<rparr>"
  have hok1: "heap_ok ?s1" using hok heap_ok_cong [of ?s1 s] by simp
  note U = xxmalloc_small_unfold [OF fl n0 cr(3), of r, unfolded j(3,4)]
  show thesis
  proof (cases "blockPtrs s ! ?i = NULL \<or> hdr_freelist (mem s) (blockPtrs s ! ?i) = NULL")
    case True
    obtain off' where b: "bootstrap r ?i ?sz ?s1
           = Returned () (?s1\<lparr>blockPtrs := (blockPtrs ?s1)[?i := r], p := r, offset := off',
                             mem := boot_mem (mem ?s1) r ?sz (blockPtrs ?s1 ! ?i),
                             mapped := (r, PAGE_SIZE) # mapped ?s1\<rparr>)"
      using bootstrap_eq [OF al v, of ?i ?s1] len i8 by auto
    let ?s2 = "?s1\<lparr>blockPtrs := (blockPtrs ?s1)[?i := r], p := r, offset := off',
                             mem := boot_mem (mem ?s1) r ?sz (blockPtrs ?s1 ! ?i),
                             mapped := (r, PAGE_SIZE) # mapped ?s1\<rparr>"
    have hok2: "heap_ok ?s2"
      by (rule bootstrap_heap_ok [OF hok src i8]) (simp_all add: ij)
    have e: "blockPtrs ?s2 ! ?i = r" using len i8 by simp
    have own2: "owned_page (mem ?s2) (blockPtrs ?s2 ! ?i)"
      unfolding e using al us boot_mem_magic [OF v] by (simp add: owned_page_def)
    have f2: "hdr_freelist (mem ?s2) (blockPtrs ?s2 ! ?i) \<noteq> NULL"
      unfolding e using boot_mem_head [OF v al] by simp
    obtain s3 where s3: "pop ?i ?s2 = Returned (hdr_freelist (mem ?s2) (blockPtrs ?s2 ! ?i)) s3"
      "heap_ok s3" "\<not> in_malloc s3" "use_emergency_block s3 = use_emergency_block ?s2"
      "blockPtrs s3 = blockPtrs ?s2" "mapped s3 = mapped ?s2"
      "owned_page (mem s3) (blockPtrs ?s2 ! ?i)"
      "hdr_size (mem s3) (blockPtrs ?s2 ! ?i) = hdr_size (mem ?s2) (blockPtrs ?s2 ! ?i)"
      "block_start (hdr_size (mem ?s2) (blockPtrs ?s2 ! ?i)) (blockPtrs ?s2 ! ?i)
         (hdr_freelist (mem ?s2) (blockPtrs ?s2 ! ?i))"
      by (rule pop_post [OF hok2 own2 f2]) (rule that)
    let ?q = "hdr_freelist (mem ?s2) r"
    have z2: "hdr_size (mem ?s2) r = ?sz" using boot_mem_size [OF v] by simp
    have bs: "block_start ?sz r ?q" using s3(9) unfolding e z2 .
    have pb: "page_base ?q = r" using al bs by (rule block_start_page_base)
    have 1: "xxmalloc r s n = Returned ?q s3" using U True b s3(1) unfolding e by simp
    have 2: "inv s3" using s3(2,3,4) fl by (simp add: inv_def)
    have 3: "blockPtrs s3 ! ?i = page_base ?q" using s3(5) e pb by simp
    have 4: "owned_page (mem s3) (page_base ?q)" using s3(7) unfolding e pb .
    have 5: "hdr_size (mem s3) (page_base ?q) = ?sz" using s3(8) z2 unfolding e pb by simp
    have 6: "mapped s3 = mapped s \<or> mapped s3 = (r, PAGE_SIZE) # mapped s" using s3(6) by simp
    have 7: "page_base ?q \<noteq> NULL" using rn unfolding pb .
    have 8: "block_start ?sz (page_base ?q) ?q" using bs unfolding pb .
    show ?thesis by (rule that [OF 1 2 j(1,2,5,6,7,4) 3 7 4 5 8 6])
  next
    case False
    let ?h = "blockPtrs s ! ?i"
    have hn: "?h \<noteq> NULL" and f: "hdr_freelist (mem s) ?h \<noteq> NULL" using False by simp_all
    have own: "owned_page (mem s) ?h" and z: "hdr_size (mem s) ?h = ?sz"
      using hok i8 hn ij unfolding heap_ok_def table_ok_def by auto
    have own1: "owned_page (mem ?s1) (blockPtrs ?s1 ! ?i)" using own by simp
    have f1: "hdr_freelist (mem ?s1) (blockPtrs ?s1 ! ?i) \<noteq> NULL" using f by simp
    obtain s3 where s3: "pop ?i ?s1 = Returned (hdr_freelist (mem ?s1) (blockPtrs ?s1 ! ?i)) s3"
      "heap_ok s3" "\<not> in_malloc s3" "use_emergency_block s3 = use_emergency_block ?s1"
      "blockPtrs s3 = blockPtrs ?s1" "mapped s3 = mapped ?s1"
      "owned_page (mem s3) (blockPtrs ?s1 ! ?i)"
      "hdr_size (mem s3) (blockPtrs ?s1 ! ?i) = hdr_size (mem ?s1) (blockPtrs ?s1 ! ?i)"
      "block_start (hdr_size (mem ?s1) (blockPtrs ?s1 ! ?i)) (blockPtrs ?s1 ! ?i)
         (hdr_freelist (mem ?s1) (blockPtrs ?s1 ! ?i))"
      by (rule pop_post [OF hok1 own1 f1]) (rule that)
    let ?q = "hdr_freelist (mem s) ?h"
    have al': "page_aligned ?h" using own by (simp add: owned_page_def)
    have bs: "block_start ?sz ?h ?q" using s3(9) z by simp
    have pb: "page_base ?q = ?h" using al' bs by (rule block_start_page_base)
    have 1: "xxmalloc r s n = Returned ?q s3" using U False s3(1) by simp
    have 2: "inv s3" using s3(2,3,4) fl by (simp add: inv_def)
    have 3: "blockPtrs s3 ! ?i = page_base ?q" using s3(5) pb by simp
    have 4: "owned_page (mem s3) (page_base ?q)" using s3(7) pb by simp
    have 5: "hdr_size (mem s3) (page_base ?q) = ?sz" using s3(8) z pb by simp
    have 6: "mapped s3 = mapped s \<or> mapped s3 = (r, PAGE_SIZE) # mapped s" using s3(6) by simp
    have 7: "page_base ?q \<noteq> NULL" using hn unfolding pb .
    have 8: "block_start ?sz (page_base ?q) ?q" using bs unfolding pb .
    show ?thesis by (rule that [OF 1 2 j(1,2,5,6,7,4) 3 7 4 5 8 6])
  qed
qed

lemma inv_init: "inv init_state"
proof -
  have "\<not> owned_page (mem init_state) pg" for pg
    by (simp add: owned_page_def init_state_def hdr_magicNum_def MAGIC_def)
  moreover have "table_ok init_state"
    by (simp add: table_ok_def init_state_def)
  ultimately show ?thesis by (simp add: inv_def heap_ok_def init_state_def)
qed

lemma page_source_ok_init: "page_source_ok init_state page_A"
proof -
  have "user_addr page_A" unfolding page_A_def by code_simp
  then show ?thesis
    by (simp add: page_source_ok_def page_aligned_def page_A_def init_state_def hdr_magicNum_def
        MAGIC_def NULL_def)
qed

lemma owned_block_user:
  assumes "owned_page m pg" "block_start sz pg q" shows "user_addr q"
proof -
  obtain k where "q = pg + of_nat k" "k < 4096" using assms(2) by (rule block_startD)
  then show ?thesis using assms(1) user_addr_add [of pg k] by (simp add: owned_page_def)
qed

lemma usable_size_marked:
  "user_addr ptr \<Longrightarrow> ptr \<noteq> NULL \<Longrightarrow> hdr_magicNum (mem s) (page_base ptr) = MAGIC
   \<Longrightarrow> xxmalloc_usable_size s ptr = hdr_size (mem s) (page_base ptr)"
  by (simp add: xxmalloc_usable_size_def ROUND_DOWN_intptr_page)

lemma owned_block_usable_size:
  assumes "owned_page (mem s) (page_base q)" "block_start sz (page_base q) q" "valid_block_size sz"
  shows "xxmalloc_usable_size s q = hdr_size (mem s) (page_base q)" and "q \<noteq> NULL"
proof -
  have al: "page_aligned (page_base q)" using assms(1) by (simp add: owned_page_def)
  show nn: "q \<noteq> NULL" using assms(3) al assms(2) by (rule block_start_nonnull)
  have "user_addr q" using assms(1,2) by (rule owned_block_user)
  then show "xxmalloc_usable_size s q = hdr_size (mem s) (page_base q)"
    using nn assms(1) by (simp add: usable_size_marked owned_page_def)
qed

lemma clamp_max:
  "unat (if n < MIN_MALLOC_SIZE then MIN_MALLOC_SIZE else n) = max 16 (unat n)"
  by (auto simp: MIN_MALLOC_SIZE_def word_less_nat_alt)

subsection \<open>Whole calls and the initial state\<close>

lemma pow2_class_range:
  assumes "4 \<le> k" "k \<le> 11"
  shows "unat (2 ^ k :: size_t) = 2 ^ k" and "16 \<le> unat (2 ^ k :: size_t)" and "unat (2 ^ k :: size_t) \<le> 2048"
    and "(2 ^ k :: size_t) \<noteq> 0" and "\<not> (2 ^ k :: size_t) < MIN_MALLOC_SIZE"
proof -
  show u: "unat (2 ^ k :: size_t) = 2 ^ k" using assms(2) by (intro unat_2p) simp
  have "(2::nat) ^ 4 \<le> 2 ^ k" using assms(1) by (intro power_increasing) simp_all
  then show lo: "16 \<le> unat (2 ^ k :: size_t)" using u by simp
  have "(2::nat) ^ k \<le> 2 ^ 11" using assms(2) by (intro power_increasing) simp_all
  then show "unat (2 ^ k :: size_t) \<le> 2048" using u by simp
  show "(2 ^ k :: size_t) \<noteq> 0" using lo assms(2) by auto
  show "\<not> (2 ^ k :: size_t) < MIN_MALLOC_SIZE" using lo by (simp add: MIN_MALLOC_SIZE_def word_less_nat_alt)
qed












section \<open>The claims\<close>

text \<open>
  C1. In a state that satisfies the invariant, with a Page Source that answers as promised,
  every request of 1 to 2048 bytes returns a pointer that is not \<open>NULL\<close>, and
  \<open>xxmalloc_usable_size\<close> of that pointer, in the state after the call, is a power of two
  between \<open>max(16, n)\<close> and \<open>2 * max(16, n)\<close>.
\<close>

theorem small_alloc_usable_size:
  assumes "inv s" and "page_source_ok s r" and "1 \<le> unat n" and "unat n \<le> 2048"
  shows "\<exists>q s' j. xxmalloc r s n = Returned q s' \<and> q \<noteq> NULL
           \<and> xxmalloc_usable_size s' q = 2 ^ j
           \<and> max 16 (unat n) \<le> unat (xxmalloc_usable_size s' q)
           \<and> unat (xxmalloc_usable_size s' q) \<le> 2 * max 16 (unat n)"
proof -
  have n0: "n \<noteq> 0" using assms(3) by auto
  obtain q s' j where x: "xxmalloc r s n = Returned q s'" "4 \<le> j" "j \<le> 11"
    "unat (if n < MIN_MALLOC_SIZE then MIN_MALLOC_SIZE else n) \<le> 2 ^ j"
    "2 ^ j < 2 * unat (if n < MIN_MALLOC_SIZE then MIN_MALLOC_SIZE else n)"
    "owned_page (mem s') (page_base q)" "hdr_size (mem s') (page_base q) = 2 ^ j"
    "block_start (2 ^ j) (page_base q) q"
    using xxmalloc_small [OF assms(1,2) n0 assms(4)] by metis
  have v: "valid_block_size (2 ^ j :: size_t)" using x(2,3) by (rule valid_block_size_2p)
  note u = owned_block_usable_size [OF x(6,8) v]
  have us: "xxmalloc_usable_size s' q = 2 ^ j" using u(1) x(7) by simp
  have "unat (2 ^ j :: size_t) = 2 ^ j" using x(3) by (intro unat_2p) simp
  then have "max 16 (unat n) \<le> unat (xxmalloc_usable_size s' q)"
    "unat (xxmalloc_usable_size s' q) \<le> 2 * max 16 (unat n)"
    using x(4,5) us by (simp_all add: clamp_max)
  then show ?thesis using x(1) u(2) us by blast
qed

theorem small_alloc_usable_size_witness:
  "inv init_state \<and> page_source_ok init_state page_A \<and> 1 \<le> unat (4 :: size_t) \<and> unat (4 :: size_t) \<le> 2048
   \<and> (\<exists>q s' j. xxmalloc page_A init_state 4 = Returned q s' \<and> q \<noteq> NULL
           \<and> xxmalloc_usable_size s' q = 2 ^ j
           \<and> max 16 (unat (4 :: size_t)) \<le> unat (xxmalloc_usable_size s' q)
           \<and> unat (xxmalloc_usable_size s' q) \<le> 2 * max 16 (unat (4 :: size_t)))"
proof -
  have h3: "1 \<le> unat (4 :: size_t)" and h4: "unat (4 :: size_t) \<le> 2048" by simp_all
  from small_alloc_usable_size [OF inv_init page_source_ok_init h3 h4]
  show ?thesis using inv_init page_source_ok_init h3 h4 by (intro conjI)
qed

text \<open>
  C2. When the Page Source fails on the large-object path, \<open>xxmalloc\<close> returns
  \<open>MAP_FAILED\<close>, which is not \<open>NULL\<close>, to its caller: the test of line 144 is never
  reached, and the process goes on. On the size-class path the header is stored through
  \<open>MAP_FAILED\<close> before that test, which by then looks at the freelist head.
\<close>

theorem xxmalloc_map_failed:
  "xxmalloc MAP_FAILED init_state 4096 = Returned MAP_FAILED init_state \<and> MAP_FAILED \<noteq> NULL
   \<and> xxmalloc MAP_FAILED init_state 16 = Trapped SegFault"
proof -
  have "xxmalloc MAP_FAILED init_state 4096 = Returned MAP_FAILED init_state \<and> MAP_FAILED \<noteq> NULL"
    by (simp add: xxmalloc_def init_state_def mmap_def MIN_MALLOC_SIZE_def MAP_FAILED_def NULL_def)
  moreover have "xxmalloc MAP_FAILED init_state 16 = Trapped SegFault" by code_simp
  ultimately show ?thesis by simp
qed

text \<open>
  C3. A request that is a power of two from 16 to 2048 is its own size class: the class
  size is the request, the class index is its exponent less 4, and the block returned
  comes from the table's page for that index, whose block size, and the usable size of the
  block, is the request itself.
\<close>

theorem exact_power_of_two:
  assumes "inv s" and "page_source_ok s r" and "4 \<le> k" and "k \<le> 11"
  shows "class_size (2 ^ k) = 2 ^ k \<and> class_index (2 ^ k) = int k - int 4
    \<and> (\<exists>q s'. xxmalloc r s (2 ^ k) = Returned q s' \<and> xxmalloc_usable_size s' q = 2 ^ k
           \<and> hdr_size (mem s') (blockPtrs s' ! (k - 4)) = 2 ^ k
           \<and> block_start (2 ^ k) (blockPtrs s' ! (k - 4)) q)"
proof -
  let ?n = "2 ^ k :: size_t"
  note p = pow2_class_range [OF assms(3,4)]
  have c: "(if ?n < MIN_MALLOC_SIZE then MIN_MALLOC_SIZE else ?n) = ?n" using p(5) by simp
  obtain j where j: "4 \<le> j" "j \<le> 11" "class_log2 ?n = int j" "\<And>i. unat ?n = 2 ^ i \<Longrightarrow> j = i"
    by (rule class_cases [OF p(2,3)]) (rule that)
  have jk: "j = k" using p(1) by (rule j(4))
  have 1: "class_size ?n = 2 ^ k" using j(3) scast_class [OF j(1,2)] jk by (simp add: class_size_def)
  have 2: "class_index ?n = int k - int 4" using j(3) jk by (simp add: class_index_def ctz_MIN)
  obtain q s' j' where x: "xxmalloc r s ?n = Returned q s'" "4 \<le> j'" "j' \<le> 11"
    "\<And>i. unat ?n = 2 ^ i \<Longrightarrow> j' = i"
    "blockPtrs s' ! (j' - 4) = page_base q"
    "owned_page (mem s') (page_base q)" "hdr_size (mem s') (page_base q) = 2 ^ j'"
    "block_start (2 ^ j') (page_base q) q"
    using xxmalloc_small [OF assms(1,2) p(4), unfolded c] p(3) by metis
  have jk': "j' = k" using p(1) by (rule x(4))
  have v: "valid_block_size (2 ^ j' :: size_t)" using x(2,3) by (rule valid_block_size_2p)
  note u = owned_block_usable_size [OF x(6,8) v]
  have "xxmalloc_usable_size s' q = 2 ^ k" using u(1) x(7) jk' by simp
  moreover have "hdr_size (mem s') (blockPtrs s' ! (k - 4)) = 2 ^ k" using x(5,7) jk' by simp
  moreover have "block_start (2 ^ k) (blockPtrs s' ! (k - 4)) q" using x(5,8) jk' by simp
  ultimately show ?thesis using 1 2 x(1) by blast
qed


theorem exact_power_of_two_witness:
  "inv init_state \<and> page_source_ok init_state page_A \<and> (4 :: nat) \<le> 6 \<and> (6 :: nat) \<le> 11
   \<and> class_size 64 = 64 \<and> class_index 64 = 2
   \<and> (\<exists>q s'. xxmalloc page_A init_state 64 = Returned q s' \<and> xxmalloc_usable_size s' q = 64
           \<and> hdr_size (mem s') (blockPtrs s' ! 2) = 64
           \<and> block_start 64 (blockPtrs s' ! 2) q)"
proof -
  have h3: "(4 :: nat) \<le> 6" and h4: "(6 :: nat) \<le> 11" by simp_all
  from exact_power_of_two [OF inv_init page_source_ok_init h3 h4]
  show ?thesis using inv_init page_source_ok_init by simp
qed

text \<open>
  C4, as amended. A request of more than 2048 and at most \<open>2^64 - 4096\<close> bytes, answered
  by the Page Source with the page-aligned base \<open>r\<close>, returns \<open>r\<close>; the region asked
  for is the request rounded up to whole pages, so it backs the request and is less than a
  page longer; nothing else of the state changes. A request of 2049 bytes asks for one page,
  4096 bytes.
\<close>

theorem large_object_path:
  assumes "\<not> use_emergency_block s" and "\<not> in_malloc s"
    and "2048 < unat n" and "unat n \<le> 2 ^ 64 - 4096" and "page_aligned r"
  shows "\<exists>len. xxmalloc r s n = Returned r (s\<lparr>mapped := (r, len) # mapped s\<rparr>)
           \<and> unat len mod 4096 = 0 \<and> unat n \<le> unat len \<and> unat len < unat n + 4096
           \<and> (n = 2049 \<longrightarrow> len = 4096)"
proof -
  let ?len = "ROUND_UP n PAGE_SIZE"
  have big: "2048 < n" using assms(3) by (simp add: word_less_nat_alt)
  have "xxmalloc r s n = Returned r (s\<lparr>mapped := (r, ?len) # mapped s\<rparr>)"
    using assms(1,2) page_aligned_not_failed [OF assms(5)]
    by (simp add: xxmalloc_large [OF assms(1,2) big] mmap_def)
  moreover have "?len = 4096" if "n = 2049" using that by (simp add: ROUND_UP_def PAGE_SIZE_def)
  moreover note ROUND_UP_page [OF assms(4)]
  ultimately show ?thesis by (intro exI [of _ ?len]) simp
qed

theorem large_object_path_witness:
  "\<not> use_emergency_block init_state \<and> \<not> in_malloc init_state \<and> 2048 < unat (2049 :: size_t)
   \<and> unat (2049 :: size_t) \<le> 2 ^ 64 - 4096 \<and> page_aligned page_A
   \<and> (\<exists>len. xxmalloc page_A init_state 2049
               = Returned page_A (init_state\<lparr>mapped := (page_A, len) # mapped init_state\<rparr>)
          \<and> unat len mod 4096 = 0 \<and> unat (2049 :: size_t) \<le> unat len
          \<and> unat len < unat (2049 :: size_t) + 4096 \<and> len = 4096)"
proof -
  have h1: "\<not> use_emergency_block init_state" and h2: "\<not> in_malloc init_state"
    by (simp_all add: init_state_def)
  have h3: "2048 < unat (2049 :: size_t)" and h4: "unat (2049 :: size_t) \<le> 2 ^ 64 - 4096"
    by simp_all
  have h5: "page_aligned page_A" by (simp add: page_aligned_def page_A_def)
  from large_object_path [OF h1 h2 h3 h4 h5] show ?thesis using h1 h2 h3 h4 h5 by auto
qed

text \<open>
  C4 as stated fails on its own example: \<open>xxmalloc(2049)\<close> asks the Page Source for
  4096 bytes, one page, not for 8192. And for a request of \<open>2^64 - 1\<close> bytes the rounding
  wraps around: the region asked for has 0 bytes.
\<close>

theorem large_path_counterexample:
  "xxmalloc page_A init_state 2049 = Returned page_A (init_state\<lparr>mapped := [(page_A, 0x1000)]\<rparr>)
   \<and> xxmalloc page_A init_state 2049 \<noteq> Returned page_A (init_state\<lparr>mapped := [(page_A, 0x2000)]\<rparr>)
   \<and> xxmalloc page_A init_state (- 1) = Returned page_A (init_state\<lparr>mapped := [(page_A, 0)]\<rparr>)"
  by (simp add: xxmalloc_def init_state_def mmap_def MIN_MALLOC_SIZE_def MAP_FAILED_def page_A_def
      ROUND_UP_def PAGE_SIZE_def)

text \<open>
  C5. Bootstrapping a page-aligned page for a valid block size \<open>sz\<close> returns, and the
  freelist of the new page is then a list of distinct blocks whose number is the page
  size less the header region (the header rounded up to \<open>sz\<close>), divided by \<open>sz\<close>.
\<close>

theorem bootstrap_block_count:
  assumes "page_aligned r" and "valid_block_size sz" and "i < length (blockPtrs s)"
  shows "\<exists>s' xs. bootstrap r i sz s = Returned () s'
           \<and> fl_list (mem s') (hdr_freelist (mem s') r) xs \<and> distinct xs
           \<and> length xs = (unat PAGE_SIZE - unat (ROUND_UP sizeof_Header sz)) div unat sz"
proof -
  obtain off' where b: "bootstrap r i sz s
           = Returned () (s\<lparr>blockPtrs := (blockPtrs s)[i := r], p := r, offset := off',
                             mem := boot_mem (mem s) r sz (blockPtrs s ! i),
                             mapped := (r, PAGE_SIZE) # mapped s\<rparr>)"
    using bootstrap_eq [OF assms] by blast
  let ?s = "s\<lparr>blockPtrs := (blockPtrs s)[i := r], p := r, offset := off',
                             mem := boot_mem (mem s) r sz (blockPtrs s ! i),
                             mapped := (r, PAGE_SIZE) # mapped s\<rparr>"
  let ?xs = "rev (page_blocks r sz)"
  have "fl_list (mem ?s) (hdr_freelist (mem ?s) r) ?xs"
    using boot_mem_list [OF assms(2,1)] by simp
  moreover have "distinct ?xs" using page_blocks_distinct by simp
  moreover have "length ?xs = (unat PAGE_SIZE - unat (ROUND_UP sizeof_Header sz)) div unat sz"
    using page_blocks_length [OF assms(2)] by (simp add: hdr_region_def PAGE_SIZE_def)
  ultimately show ?thesis using b by blast
qed

theorem bootstrap_block_count_witness:
  "page_aligned page_A \<and> valid_block_size 16 \<and> 0 < length (blockPtrs init_state)
   \<and> (\<exists>s' xs. bootstrap page_A 0 16 init_state = Returned () s'
           \<and> fl_list (mem s') (hdr_freelist (mem s') page_A) xs \<and> distinct xs
           \<and> length xs = 254)"
proof -
  have h1: "page_aligned page_A" by (simp add: page_aligned_def page_A_def)
  have h2: "valid_block_size 16" by (simp add: valid_block_size_iff)
  have h3: "0 < length (blockPtrs init_state)" by (simp add: init_state_def)
  from bootstrap_block_count [OF h1 h2 h3]
  show ?thesis using h1 h2 h3 by (simp add: PAGE_SIZE_def ROUND_UP_Header)
qed










text \<open>
  C10. With \<open>use_emergency_block\<close> set, every request of a size other than 0 returns the
  address of the emergency block, whatever the size, and leaves the whole state as it was.
\<close>

theorem emergency_block_always:
  "use_emergency_block s \<Longrightarrow> sz \<noteq> 0 \<Longrightarrow> xxmalloc r s sz = Returned (emergency_block s) s"
  by (simp add: xxmalloc_def)

theorem emergency_block_always_witness:
  "use_emergency_block (init_state\<lparr>use_emergency_block := True\<rparr>) \<and> (4096 :: size_t) \<noteq> 0
   \<and> xxmalloc page_A (init_state\<lparr>use_emergency_block := True\<rparr>) 4096
       = Returned 0x4040a0 (init_state\<lparr>use_emergency_block := True\<rparr>)"
proof -
  have h1: "use_emergency_block (init_state\<lparr>use_emergency_block := True\<rparr>)" by simp
  have h2: "(4096 :: size_t) \<noteq> 0" by simp
  from emergency_block_always [OF h1 h2, of page_A] show ?thesis
    by (simp add: init_state_def)
qed

end
